theory Spec2Isabelle
  imports Complex_Main "HOL-Library.Multiset"
begin

section \<open>Data model\<close>

text \<open>
  The two programs \<^verbatim>\<open>fcfs_simulator.cpp\<close> and \<^verbatim>\<open>wfq_simulator.cpp\<close> share their data
  types; the WFQ variants extend the FCFS ones by the fields the WFQ file adds.
  Every \<^verbatim>\<open>double\<close> is modelled as a \<^typ>\<open>real\<close>: rounding, infinities and NaN are outside
  the model, so statements that divide carry the hypothesis that the divisor is positive.
  The counters of type \<^verbatim>\<open>long\<close> only ever count up from zero and are modelled as
  \<^typ>\<open>nat\<close>; \<^verbatim>\<open>size_t\<close> is \<^typ>\<open>nat\<close>; \<^verbatim>\<open>int\<close> is \<^typ>\<open>int\<close>.
\<close>

record packet =
  id_pkt :: int
  sourceID :: nat
  size_pkt :: int
  arrivalTime :: real

record wfq_packet = packet +
  weight_pkt :: real
  virtualFinishTime :: real

text \<open>
  \<^verbatim>\<open>struct Event\<close> carries a type tag; its \<^verbatim>\<open>packet\<close> member is only ever read for a
  departure and its \<^verbatim>\<open>sourceID\<close> only for an arrival.
\<close>

datatype 'p event = PACKET_ARRIVAL real nat | PACKET_DEPARTURE real 'p

fun time_ev :: "'p event \<Rightarrow> real" where
  "time_ev (PACKET_ARRIVAL tm srcID) = tm"
| "time_ev (PACKET_DEPARTURE tm p) = tm"

fun is_departure :: "'p event \<Rightarrow> bool" where
  "is_departure (PACKET_ARRIVAL tm srcID) = False"
| "is_departure (PACKET_DEPARTURE tm p) = True"

record source =
  id_src :: nat
  packetRate :: real
  minSize :: int
  maxSize :: int
  weight :: real
  startTime :: real
  endTime :: real

record wfq_source = source +
  lastFinishTime :: real

record sourceStats =
  packetsGenerated :: nat
  packetsTransmitted :: nat
  packetsDropped :: nat
  bytesTransmitted :: real
  totalDelay :: real

definition SourceStats :: sourceStats where
  "SourceStats = \<lparr>packetsGenerated = 0, packetsTransmitted = 0, packetsDropped = 0,
     bytesTransmitted = 0, totalDelay = 0\<rparr>"

text \<open>
  The random engine and the two distributions of a source belong to the C++ standard
  library. The engine state is a value of an arbitrary type \<open>'g\<close>; a draw takes the
  distribution's parameters and the engine state and returns the value drawn and the next
  engine state.
\<close>

record 'g rng =
  arrivalDist :: "real \<Rightarrow> 'g \<Rightarrow> real \<times> 'g"
  sizeDist :: "int \<Rightarrow> int \<Rightarrow> 'g \<Rightarrow> int \<times> 'g"

record ('s, 'p, 'g) simulator =
  numSources :: int
  simulationTime :: real
  linkCapacity :: real
  bufferSize :: nat
  currentTime :: real
  linkBusy :: bool
  nextPacketId :: int
  sources :: "'s list"
  stats :: "sourceStats list"
  packetBuffer :: "'p list"
  eventQueue :: "'p event list"
  generator :: 'g

record ('s, 'p, 'g) wfq_simulator = "('s, 'p, 'g) simulator" +
  systemVirtualTime :: real

type_synonym 'g FCFSSimulator = "(source, packet, 'g) simulator"
type_synonym 'g WFQSimulator = "(wfq_source, wfq_packet, 'g) wfq_simulator"

definition FCFSSimulator :: "'g \<Rightarrow> 'g FCFSSimulator" where
  "FCFSSimulator g = \<lparr>numSources = 0, simulationTime = 0, linkCapacity = 0, bufferSize = 0,
     currentTime = 0, linkBusy = False, nextPacketId = 1, sources = [], stats = [],
     packetBuffer = [], eventQueue = [], generator = g\<rparr>"

definition WFQSimulator :: "'g \<Rightarrow> 'g WFQSimulator" where
  "WFQSimulator g = \<lparr>numSources = 0, simulationTime = 0, linkCapacity = 0, bufferSize = 0,
     currentTime = 0, linkBusy = False, nextPacketId = 1, sources = [], stats = [],
     packetBuffer = [], eventQueue = [], generator = g, systemVirtualTime = 0\<rparr>"

section \<open>Priority queues\<close>

text \<open>
  \<^verbatim>\<open>std::priority_queue\<close> with \<^verbatim>\<open>std::greater\<close> is modelled by its contract. The
  contents are a list in insertion order; \<^verbatim>\<open>top\<close> followed by \<^verbatim>\<open>pop\<close> hands out an
  element whose key no other element undercuts. Which of several elements of least key
  comes out depends on the heap layout, which the standard leaves open: the argument
  \<open>k\<close> selects it (the \<open>k\<close>-th candidate, counted modulo their number), so a statement
  for all \<open>k\<close> covers every layout. Calling \<open>pq_pop\<close> on an empty queue is undefined
  behaviour in C++; each caller below tests for emptiness where the source does, and
  the one call the source does not guard is modelled as \<open>Undefined\<close>.
\<close>

definition pq_push :: "'a \<Rightarrow> 'a list \<Rightarrow> 'a list" where
  "pq_push x q = q @ [x]"

definition pq_minima :: "('a \<Rightarrow> real) \<Rightarrow> 'a list \<Rightarrow> nat list" where
  "pq_minima key q =
     map fst (filter (\<lambda>(i, x). list_all (\<lambda>y. key x \<le> key y) q) (enumerate 0 q))"

definition pq_pop :: "('a \<Rightarrow> real) \<Rightarrow> nat \<Rightarrow> 'a list \<Rightarrow> 'a \<times> 'a list" where
  "pq_pop key k q =
     (let c = pq_minima key q; i = c ! (k mod length c)
      in (q ! i, take i q @ drop (Suc i) q))"

section \<open>Operations shared by both simulators\<close>

definition scheduleEvent ::
  "'p event \<Rightarrow> ('s, 'p, 'g, 'z) simulator_scheme \<Rightarrow> ('s, 'p, 'g, 'z) simulator_scheme" where
  "scheduleEvent e s =
     (if time_ev e \<le> simulationTime s then s\<lparr>eventQueue := pq_push e (eventQueue s)\<rparr> else s)"

text \<open>Step 1 of both arrival handlers: draw the gap and schedule the next arrival.\<close>

definition scheduleNextArrival ::
  "'g rng \<Rightarrow> nat \<Rightarrow> ('y source_scheme, 'p, 'g, 'z) simulator_scheme
     \<Rightarrow> ('y source_scheme, 'p, 'g, 'z) simulator_scheme" where
  "scheduleNextArrival R srcID s =
     (let src = sources s ! srcID;
          (d, g') = arrivalDist R (packetRate src) (generator s);
          s1 = s\<lparr>generator := g'\<rparr>;
          nextArrivalTime = currentTime s1 + d
      in if nextArrivalTime < endTime src
         then scheduleEvent (PACKET_ARRIVAL nextArrivalTime srcID) s1 else s1)"

definition countGenerated :: "sourceStats \<Rightarrow> sourceStats" where
  "countGenerated st = st\<lparr>packetsGenerated := packetsGenerated st + 1\<rparr>"

definition countDropped :: "sourceStats \<Rightarrow> sourceStats" where
  "countDropped st = st\<lparr>packetsDropped := packetsDropped st + 1\<rparr>"

definition countTransmitted :: "real \<Rightarrow> real \<Rightarrow> sourceStats \<Rightarrow> sourceStats" where
  "countTransmitted bytes delay st =
     st\<lparr>bytesTransmitted := bytesTransmitted st + bytes,
        packetsTransmitted := packetsTransmitted st + 1,
        totalDelay := totalDelay st + delay\<rparr>"

definition updateStats ::
  "nat \<Rightarrow> (sourceStats \<Rightarrow> sourceStats) \<Rightarrow> ('s, 'p, 'g, 'z) simulator_scheme
     \<Rightarrow> ('s, 'p, 'g, 'z) simulator_scheme" where
  "updateStats i f s = s\<lparr>stats := (stats s)[i := f (stats s ! i)]\<rparr>"

text \<open>The part of both departure handlers that precedes \<^verbatim>\<open>startNextTransmission\<close>.\<close>

definition recordDeparture ::
  "'y packet_scheme \<Rightarrow> ('s, 'p, 'g, 'z) simulator_scheme \<Rightarrow> ('s, 'p, 'g, 'z) simulator_scheme" where
  "recordDeparture p s =
     (let s1 = s\<lparr>linkBusy := False\<rparr>
      in updateStats (sourceID p)
           (countTransmitted (real_of_int (size_pkt p)) (currentTime s1 - arrivalTime p)) s1)"

text \<open>
  One pass of the \<^verbatim>\<open>while\<close> loop of \<^verbatim>\<open>run\<close> either goes on, leaves the loop, or (WFQ
  only) runs into undefined behaviour.
\<close>

datatype 'a loop = Continue 'a | Break 'a | Undefined

fun the_state :: "'a loop \<Rightarrow> 'a option" where
  "the_state (Continue s) = Some s"
| "the_state (Break s) = Some s"
| "the_state Undefined = None"

text \<open>Priming the event queue: one arrival per source at its start time.\<close>

definition prime ::
  "('y source_scheme, 'p, 'g, 'z) simulator_scheme
     \<Rightarrow> ('y source_scheme, 'p, 'g, 'z) simulator_scheme" where
  "prime s =
     foldl (\<lambda>s' src. scheduleEvent (PACKET_ARRIVAL (startTime src) (id_src src)) s') s (sources s)"

section \<open>The FCFS simulator\<close>

definition fcfs_startNextTransmission :: "'g FCFSSimulator \<Rightarrow> 'g FCFSSimulator" where
  "fcfs_startNextTransmission s =
     (if linkBusy s \<or> packetBuffer s = [] then s
      else
        let s1 = s\<lparr>linkBusy := True\<rparr>;
            packetToTransmit = hd (packetBuffer s1);
            s2 = s1\<lparr>packetBuffer := tl (packetBuffer s1)\<rparr>;
            transmissionTime = real_of_int (size_pkt packetToTransmit) / linkCapacity s2
        in scheduleEvent
             (PACKET_DEPARTURE (currentTime s2 + transmissionTime) packetToTransmit) s2)"

definition fcfs_generatePacket :: "'g rng \<Rightarrow> nat \<Rightarrow> 'g FCFSSimulator \<Rightarrow> packet \<times> 'g FCFSSimulator" where
  "fcfs_generatePacket R srcID s =
     (let src = sources s ! srcID;
          (sz, g') = sizeDist R (minSize src) (maxSize src) (generator s);
          newPacket = \<lparr>id_pkt = nextPacketId s, sourceID = srcID, size_pkt = sz,
                        arrivalTime = currentTime s\<rparr>;
          s1 = s\<lparr>nextPacketId := nextPacketId s + 1, generator := g'\<rparr>
      in (newPacket, updateStats srcID countGenerated s1))"

definition fcfs_admit :: "packet \<Rightarrow> 'g FCFSSimulator \<Rightarrow> 'g FCFSSimulator" where
  "fcfs_admit newPacket s =
     (if length (packetBuffer s) < bufferSize s
      then s\<lparr>packetBuffer := packetBuffer s @ [newPacket]\<rparr>
      else updateStats (sourceID newPacket) countDropped s)"

definition fcfs_handleArrivalEvent :: "'g rng \<Rightarrow> nat \<Rightarrow> 'g FCFSSimulator \<Rightarrow> 'g FCFSSimulator" where
  "fcfs_handleArrivalEvent R srcID s =
     (let s1 = scheduleNextArrival R srcID s;
          (newPacket, s2) = fcfs_generatePacket R srcID s1
      in fcfs_startNextTransmission (fcfs_admit newPacket s2))"

definition fcfs_handleDepartureEvent :: "packet \<Rightarrow> 'g FCFSSimulator \<Rightarrow> 'g FCFSSimulator" where
  "fcfs_handleDepartureEvent p s = fcfs_startNextTransmission (recordDeparture p s)"

definition fcfs_iteration :: "'g rng \<Rightarrow> nat \<Rightarrow> 'g FCFSSimulator \<Rightarrow> 'g FCFSSimulator loop" where
  "fcfs_iteration R k s =
     (if eventQueue s = [] then Break s
      else
        let (currentEvent, q) = pq_pop time_ev k (eventQueue s);
            s1 = s\<lparr>eventQueue := q, currentTime := time_ev currentEvent\<rparr>
        in if currentTime s1 > simulationTime s1 then Break s1
           else Continue
             (case currentEvent of
                PACKET_ARRIVAL tm srcID \<Rightarrow> fcfs_handleArrivalEvent R srcID s1
              | PACKET_DEPARTURE tm p \<Rightarrow> fcfs_handleDepartureEvent p s1))"

text \<open>
  The loop, run for as many passes as there are tie-break choices in the list. The result
  is \<open>Break\<close> when the loop has been left within these passes and \<open>Continue\<close> when it
  is still going.
\<close>

fun fcfs_loop :: "'g rng \<Rightarrow> nat list \<Rightarrow> 'g FCFSSimulator \<Rightarrow> 'g FCFSSimulator loop" where
  "fcfs_loop R [] s = Continue s"
| "fcfs_loop R (k # ks) s =
     (case fcfs_iteration R k s of
        Continue s' \<Rightarrow> fcfs_loop R ks s'
      | Break s' \<Rightarrow> Break s'
      | Undefined \<Rightarrow> Undefined)"

definition fcfs_run :: "'g rng \<Rightarrow> nat list \<Rightarrow> 'g FCFSSimulator \<Rightarrow> 'g FCFSSimulator loop" where
  "fcfs_run R ks s = fcfs_loop R ks (prime s)"

section \<open>The WFQ simulator\<close>

definition wfq_startNextTransmission :: "nat \<Rightarrow> 'g WFQSimulator \<Rightarrow> 'g WFQSimulator" where
  "wfq_startNextTransmission k s =
     (if linkBusy s \<or> packetBuffer s = [] then s
      else
        let s1 = s\<lparr>linkBusy := True\<rparr>;
            (packetToTransmit, b) = pq_pop virtualFinishTime k (packetBuffer s1);
            s2 = s1\<lparr>packetBuffer := b\<rparr>;
            virtualStartTime = virtualFinishTime packetToTransmit
              - real_of_int (size_pkt packetToTransmit) / weight_pkt packetToTransmit;
            s3 = s2\<lparr>systemVirtualTime := virtualStartTime\<rparr>;
            transmissionTime = real_of_int (size_pkt packetToTransmit) / linkCapacity s3
        in scheduleEvent
             (PACKET_DEPARTURE (currentTime s3 + transmissionTime) packetToTransmit) s3)"

definition wfq_generatePacket ::
  "'g rng \<Rightarrow> nat \<Rightarrow> 'g WFQSimulator \<Rightarrow> wfq_packet \<times> 'g WFQSimulator" where
  "wfq_generatePacket R srcID s =
     (let src = sources s ! srcID;
          (sz, g') = sizeDist R (minSize src) (maxSize src) (generator s);
          virtualStartTime = max (systemVirtualTime s) (lastFinishTime src);
          newPacket = \<lparr>id_pkt = nextPacketId s, sourceID = srcID, size_pkt = sz,
                        arrivalTime = currentTime s, weight_pkt = weight src,
                        virtualFinishTime = virtualStartTime + real_of_int sz / weight src\<rparr>;
          s1 = s\<lparr>nextPacketId := nextPacketId s + 1, generator := g',
                 sources := (sources s)[srcID :=
                   src\<lparr>lastFinishTime := virtualFinishTime newPacket\<rparr>]\<rparr>
      in (newPacket, updateStats srcID countGenerated s1))"

text \<open>
  Buffer management. The \<^verbatim>\<open>else\<close> branch of the source calls \<^verbatim>\<open>top\<close> and \<^verbatim>\<open>pop\<close>
  without testing for emptiness; on an empty buffer that is undefined behaviour, the
  result \<open>None\<close> here.
\<close>

definition wfq_admit :: "nat \<Rightarrow> wfq_packet \<Rightarrow> 'g WFQSimulator \<Rightarrow> 'g WFQSimulator option" where
  "wfq_admit k newPacket s =
     (if length (packetBuffer s) < bufferSize s
      then Some (s\<lparr>packetBuffer := pq_push newPacket (packetBuffer s)\<rparr>)
      else if packetBuffer s = [] then None
      else
        let (packetToDrop, b) = pq_pop virtualFinishTime k (packetBuffer s);
            s1 = s\<lparr>packetBuffer := b\<rparr>;
            s2 = updateStats (sourceID packetToDrop) countDropped s1
        in Some (s2\<lparr>packetBuffer := pq_push newPacket (packetBuffer s2)\<rparr>))"

definition wfq_handleArrivalEvent ::
  "'g rng \<Rightarrow> nat \<Rightarrow> nat \<Rightarrow> nat \<Rightarrow> 'g WFQSimulator \<Rightarrow> 'g WFQSimulator option" where
  "wfq_handleArrivalEvent R kd kt srcID s =
     (let s1 = scheduleNextArrival R srcID s;
          (newPacket, s2) = wfq_generatePacket R srcID s1
      in map_option (wfq_startNextTransmission kt) (wfq_admit kd newPacket s2))"

definition wfq_handleDepartureEvent :: "nat \<Rightarrow> wfq_packet \<Rightarrow> 'g WFQSimulator \<Rightarrow> 'g WFQSimulator" where
  "wfq_handleDepartureEvent kt p s = wfq_startNextTransmission kt (recordDeparture p s)"

text \<open>
  A pass of the WFQ loop takes three tie-break choices: for the event queue, for the
  buffer minimum that is dropped, and for the buffer minimum that is transmitted.
\<close>

definition wfq_iteration ::
  "'g rng \<Rightarrow> nat \<times> nat \<times> nat \<Rightarrow> 'g WFQSimulator \<Rightarrow> 'g WFQSimulator loop" where
  "wfq_iteration R k s =
     (case k of (ke, kd, kt) \<Rightarrow>
      if eventQueue s = [] then Break s
      else
        let (currentEvent, q) = pq_pop time_ev ke (eventQueue s);
            s1 = s\<lparr>eventQueue := q, currentTime := time_ev currentEvent\<rparr>
        in if currentTime s1 > simulationTime s1 then Break s1
           else
             (case currentEvent of
                PACKET_ARRIVAL tm srcID \<Rightarrow>
                  (case wfq_handleArrivalEvent R kd kt srcID s1 of
                     None \<Rightarrow> Undefined | Some s2 \<Rightarrow> Continue s2)
              | PACKET_DEPARTURE tm p \<Rightarrow> Continue (wfq_handleDepartureEvent kt p s1)))"

fun wfq_loop ::
  "'g rng \<Rightarrow> (nat \<times> nat \<times> nat) list \<Rightarrow> 'g WFQSimulator \<Rightarrow> 'g WFQSimulator loop" where
  "wfq_loop R [] s = Continue s"
| "wfq_loop R (k # ks) s =
     (case wfq_iteration R k s of
        Continue s' \<Rightarrow> wfq_loop R ks s'
      | Break s' \<Rightarrow> Break s'
      | Undefined \<Rightarrow> Undefined)"

definition wfq_run ::
  "'g rng \<Rightarrow> (nat \<times> nat \<times> nat) list \<Rightarrow> 'g WFQSimulator \<Rightarrow> 'g WFQSimulator loop" where
  "wfq_run R ks s = wfq_loop R ks (prime s)"

section \<open>Loading the configuration\<close>

text \<open>
  The file is the list of its lines, or \<open>None\<close> when it cannot be opened. The formatted
  extractions \<^verbatim>\<open>ss >> a >> b >> ...\<close> of a whole line belong to the standard library and
  are parameters: \<open>readHeader\<close> gives the values the four members hold after the
  extraction from the first line, \<open>readSource\<close> the values of the six locals after the
  extraction from a source line. \<^verbatim>\<open>loadConfig\<close> never looks at the stream state after an
  extraction. The exceptions the function throws are the error values;
  \<^verbatim>\<open>stats.resize(numSources)\<close> with a negative \<^verbatim>\<open>int\<close> converts it to a \<^verbatim>\<open>size_t\<close>
  beyond \<^verbatim>\<open>max_size()\<close> and throws \<^verbatim>\<open>std::length_error\<close>.
\<close>

datatype load_error = CouldNotOpen | EmptyConfig | MissingSources | LengthError

record extractors =
  readHeader :: "string \<Rightarrow> int \<times> real \<times> real \<times> nat"
  readSource :: "string \<Rightarrow> real \<times> int \<times> int \<times> real \<times> real \<times> real"

definition Source :: "nat \<Rightarrow> real \<Rightarrow> int \<Rightarrow> int \<Rightarrow> real \<Rightarrow> real \<Rightarrow> real \<Rightarrow> source" where
  "Source i rate mn mx w start end' =
     \<lparr>id_src = i, packetRate = rate, minSize = mn, maxSize = mx, weight = w,
      startTime = start, endTime = end'\<rparr>"

definition wfq_Source :: "nat \<Rightarrow> real \<Rightarrow> int \<Rightarrow> int \<Rightarrow> real \<Rightarrow> real \<Rightarrow> real \<Rightarrow> wfq_source" where
  "wfq_Source i rate mn mx w start end' =
     \<lparr>id_src = i, packetRate = rate, minSize = mn, maxSize = mx, weight = w,
      startTime = start, endTime = end', lastFinishTime = 0\<rparr>"

text \<open>
  The \<^verbatim>\<open>for\<close> loop over the source lines; \<open>i\<close> is the loop counter and \<open>m\<close> the number
  of passes still to make. The constructor of the source record is an argument, since
  the two files differ in it only.
\<close>

fun loadSources ::
  "(nat \<Rightarrow> real \<Rightarrow> int \<Rightarrow> int \<Rightarrow> real \<Rightarrow> real \<Rightarrow> real \<Rightarrow> 's) \<Rightarrow> extractors \<Rightarrow> real \<Rightarrow> nat \<Rightarrow> nat
     \<Rightarrow> string list \<Rightarrow> load_error + 's list" where
  "loadSources mk X T i 0 ls = Inr []"
| "loadSources mk X T i (Suc m) [] = Inl MissingSources"
| "loadSources mk X T i (Suc m) (line # ls) =
     (case readSource X line of (rate, minSz, maxSz, w, tb_frac, te_frac) \<Rightarrow>
        (case loadSources mk X T (Suc i) m ls of
           Inl e \<Rightarrow> Inl e
         | Inr srcs \<Rightarrow> Inr (mk i rate minSz maxSz w (tb_frac * T) (te_frac * T) # srcs)))"

definition resize :: "nat \<Rightarrow> 'a \<Rightarrow> 'a list \<Rightarrow> 'a list" where
  "resize n x xs = take n xs @ replicate (n - length xs) x"

definition loadConfig ::
  "(nat \<Rightarrow> real \<Rightarrow> int \<Rightarrow> int \<Rightarrow> real \<Rightarrow> real \<Rightarrow> real \<Rightarrow> 's) \<Rightarrow> extractors \<Rightarrow> string list option
     \<Rightarrow> ('s, 'p, 'g, 'z) simulator_scheme \<Rightarrow> load_error + ('s, 'p, 'g, 'z) simulator_scheme" where
  "loadConfig mk X file s =
     (case file of
        None \<Rightarrow> Inl CouldNotOpen
      | Some [] \<Rightarrow> Inl EmptyConfig
      | Some (line # ls) \<Rightarrow>
          (case readHeader X line of (n, T, C, B) \<Rightarrow>
             let s1 = s\<lparr>numSources := n, simulationTime := T, linkCapacity := C,
                        bufferSize := B\<rparr>
             in if n < 0 then Inl LengthError
                else
                  let s2 = s1\<lparr>stats := resize (nat n) SourceStats (stats s1)\<rparr>
                  in (case loadSources mk X (simulationTime s2) 0 (nat n) ls of
                        Inl e \<Rightarrow> Inl e
                      | Inr srcs \<Rightarrow> Inr (s2\<lparr>sources := sources s2 @ srcs\<rparr>))))"

definition fcfs_loadConfig ::
  "extractors \<Rightarrow> string list option \<Rightarrow> 'g FCFSSimulator \<Rightarrow> load_error + 'g FCFSSimulator" where
  "fcfs_loadConfig = loadConfig Source"

definition wfq_loadConfig ::
  "extractors \<Rightarrow> string list option \<Rightarrow> 'g WFQSimulator \<Rightarrow> load_error + 'g WFQSimulator" where
  "wfq_loadConfig = loadConfig wfq_Source"

text \<open>
  The \<^verbatim>\<open>try\<close> block of \<^verbatim>\<open>main\<close> up to the end of \<^verbatim>\<open>run\<close>: an exception of
  \<^verbatim>\<open>loadConfig\<close> is caught, printed once and ends the process before \<^verbatim>\<open>run\<close>.
\<close>

definition fcfs_main ::
  "extractors \<Rightarrow> 'g rng \<Rightarrow> nat list \<Rightarrow> 'g \<Rightarrow> string list option
     \<Rightarrow> load_error + 'g FCFSSimulator loop" where
  "fcfs_main X R ks g file =
     (case fcfs_loadConfig X file (FCFSSimulator g) of
        Inl e \<Rightarrow> Inl e
      | Inr s \<Rightarrow> Inr (fcfs_run R ks s))"

definition wfq_main ::
  "extractors \<Rightarrow> 'g rng \<Rightarrow> (nat \<times> nat \<times> nat) list \<Rightarrow> 'g \<Rightarrow> string list option
     \<Rightarrow> load_error + 'g WFQSimulator loop" where
  "wfq_main X R ks g file =
     (case wfq_loadConfig X file (WFQSimulator g) of
        Inl e \<Rightarrow> Inl e
      | Inr s \<Rightarrow> Inr (wfq_run R ks s))"

section \<open>The metrics of printResults\<close>








section \<open>A scripted random engine for concrete runs\<close>

text \<open>
  For evaluating the simulators on concrete inputs the engine state is the list of the
  numbers still to be drawn: an arrival draw returns the next number as the gap, a size
  draw returns \<open>lo\<close> plus the next number, capped at \<open>hi\<close>.
\<close>

definition scripted :: "nat list rng" where
  "scripted =
     \<lparr>arrivalDist = (\<lambda>rate g. case g of [] \<Rightarrow> (1, []) | x # g' \<Rightarrow> (real x, g')),
      sizeDist = (\<lambda>lo hi g. case g of [] \<Rightarrow> (lo, []) | x # g' \<Rightarrow> (min hi (lo + int x), g'))\<rparr>"

section \<open>Invariants of a run\<close>

fun src_ev :: "'x packet_scheme event \<Rightarrow> nat" where
  "src_ev (PACKET_ARRIVAL tm srcID) = srcID"
| "src_ev (PACKET_DEPARTURE tm p) = sourceID p"

fun departing :: "'p event list \<Rightarrow> 'p list" where
  "departing [] = []"
| "departing (PACKET_ARRIVAL tm srcID # q) = departing q"
| "departing (PACKET_DEPARTURE tm p # q) = p # departing q"

definition from_src :: "nat \<Rightarrow> 'x packet_scheme list \<Rightarrow> nat" where
  "from_src i ps = length (filter (\<lambda>p. sourceID p = i) ps)"

definition wellformed :: "('s, 'x packet_scheme, 'g, 'z) simulator_scheme \<Rightarrow> bool" where
  "wellformed s \<longleftrightarrow>
     numSources s = int (length (sources s)) \<and> length (stats s) = length (sources s) \<and>
     (\<forall>e \<in> set (eventQueue s). src_ev e < length (sources s) \<and> time_ev e \<le> simulationTime s) \<and>
     (\<forall>p \<in> set (packetBuffer s). sourceID p < length (sources s))"

definition accounted :: "('s, 'x packet_scheme, 'g, 'z) simulator_scheme \<Rightarrow> nat \<Rightarrow> nat" where
  "accounted s i =
     packetsTransmitted (stats s ! i) + packetsDropped (stats s ! i) + from_src i (packetBuffer s)"

definition conserved :: "nat option \<Rightarrow> ('s, 'x packet_scheme, 'g, 'z) simulator_scheme \<Rightarrow> bool" where
  "conserved L s \<longleftrightarrow>
     (\<forall>i < length (sources s).
        packetsGenerated (stats s ! i) =
          accounted s i + from_src i (departing (eventQueue s)) + (if L = Some i then 1 else 0)) \<and>
     (linkBusy s \<longrightarrow> length (departing (eventQueue s)) + (if L = None then 0 else 1) = 1) \<and>
     (\<not> linkBusy s \<longrightarrow> departing (eventQueue s) = [] \<and> L = None) \<and>
     (\<forall>j. L = Some j \<longrightarrow> j < length (sources s))"

definition fcfs_inv :: "'g FCFSSimulator \<Rightarrow> bool" where
  "fcfs_inv s \<longleftrightarrow> wellformed s \<and> (\<exists>L. conserved L s)"

definition rng_ok :: "'g rng \<Rightarrow> bool" where
  "rng_ok R \<longleftrightarrow>
     (\<forall>rate g. 0 < rate \<longrightarrow> 0 \<le> fst (arrivalDist R rate g)) \<and>
     (\<forall>lo hi g. lo \<le> hi \<longrightarrow> lo \<le> fst (sizeDist R lo hi g) \<and> fst (sizeDist R lo hi g) \<le> hi)"

definition valid :: "('y source_scheme, 'p, 'g, 'z) simulator_scheme \<Rightarrow> bool" where
  "valid s \<longleftrightarrow>
     0 < simulationTime s \<and> 0 < linkCapacity s \<and>
     (\<forall>src \<in> set (sources s).
        0 < packetRate src \<and> 0 < minSize src \<and> minSize src \<le> maxSize src \<and> 0 < weight src \<and>
        0 \<le> startTime src)"

definition bytesOf :: "('s, 'p, 'g, 'z) simulator_scheme \<Rightarrow> real list" where
  "bytesOf s = map bytesTransmitted (stats s)"

definition sumBytes :: "('s, 'p, 'g, 'z) simulator_scheme \<Rightarrow> real" where
  "sumBytes s = sum_list (bytesOf s)"

definition timed :: "('s, 'x packet_scheme, 'g, 'z) simulator_scheme \<Rightarrow> bool" where
  "timed s \<longleftrightarrow>
     0 \<le> currentTime s \<and> currentTime s \<le> simulationTime s \<and>
     (\<forall>e \<in> set (eventQueue s). currentTime s \<le> time_ev e) \<and>
     (\<forall>p \<in> set (packetBuffer s). 0 \<le> size_pkt p) \<and>
     (\<forall>x \<in> set (bytesOf s). 0 \<le> x) \<and>
     (\<forall>tm p. PACKET_DEPARTURE tm p \<in> set (eventQueue s) \<longrightarrow> 0 \<le> size_pkt p)"

definition loaded :: "('y source_scheme, 'x packet_scheme, 'g, 'z) simulator_scheme \<Rightarrow> bool" where
  "loaded s \<longleftrightarrow>
     numSources s = int (length (sources s)) \<and>
     stats s = replicate (length (sources s)) SourceStats \<and>
     (\<forall>i < length (sources s). id_src (sources s ! i) = i) \<and>
     currentTime s = 0 \<and> \<not> linkBusy s \<and> packetBuffer s = [] \<and> eventQueue s = []"


definition wfq_inv :: "'g WFQSimulator \<Rightarrow> bool" where
  "wfq_inv s \<longleftrightarrow> wellformed s \<and> (\<exists>L. conserved L s)"

definition wfq_sound :: "'g WFQSimulator \<Rightarrow> bool" where
  "wfq_sound s \<longleftrightarrow> wfq_inv s \<and> valid s \<and> timed s"

definition fcfs_configured :: "real \<Rightarrow> real \<Rightarrow> nat \<Rightarrow> source list \<Rightarrow> 'g \<Rightarrow> 'g FCFSSimulator" where
  "fcfs_configured T C B srcs g =
     (FCFSSimulator g)\<lparr>numSources := int (length srcs), simulationTime := T, linkCapacity := C,
        bufferSize := B, stats := replicate (length srcs) SourceStats, sources := srcs\<rparr>"

definition wfq_configured :: "real \<Rightarrow> real \<Rightarrow> nat \<Rightarrow> wfq_source list \<Rightarrow> 'g \<Rightarrow> 'g WFQSimulator" where
  "wfq_configured T C B srcs g =
     (WFQSimulator g)\<lparr>numSources := int (length srcs), simulationTime := T, linkCapacity := C,
        bufferSize := B, stats := replicate (length srcs) SourceStats, sources := srcs\<rparr>"

definition balanced :: "nat \<Rightarrow> ('s, 'x packet_scheme, 'g, 'z) simulator_scheme \<Rightarrow> bool" where
  "balanced i s \<longleftrightarrow> packetsGenerated (stats s ! i) = accounted s i"

definition balanced_but :: "nat \<Rightarrow> ('s, 'x packet_scheme, 'g, 'z) simulator_scheme \<Rightarrow> bool" where
  "balanced_but j s \<longleftrightarrow>
     j < length (sources s) \<and> packetsGenerated (stats s ! j) = accounted s j + 1 \<and>
     (\<forall>i < length (sources s). i \<noteq> j \<longrightarrow> balanced i s)"

definition books_closed :: "('s, 'x packet_scheme, 'g, 'z) simulator_scheme \<Rightarrow> bool" where
  "books_closed s \<longleftrightarrow>
     (if linkBusy s then \<exists>j. balanced_but j s else \<forall>i < length (sources s). balanced i s)"

definition lost_in_flight :: "nat list FCFSSimulator" where
  "lost_in_flight = fcfs_configured 10 10 5 [Source 0 1 200 200 1 0 10] [20, 0]"

definition two_flows :: "nat \<Rightarrow> int \<Rightarrow> nat list WFQSimulator" where
  "two_flows B sz =
     wfq_configured 100 10 B
       [wfq_Source 0 1 10 100 1 0 2, wfq_Source 1 1 sz sz 1 2 3] [1, 90, 1, 0, 1, 0]"

definition table_extractors :: extractors where
  "table_extractors =
     \<lparr>readHeader = (\<lambda>l. if l = ''1 10 1000 5'' then (1, 10, 1000, 5) else (0, 0, 0, 0)),
      readSource = (\<lambda>l. if l = ''1 100 100 1 0.5 0.2'' then (1, 100, 100, 1, 1 / 2, 1 / 5)
                         else (0, 0, 0, 0, 0, 0))\<rparr>"

definition window_reversed :: "string list option" where
  "window_reversed = Some [''1 10 1000 5'', ''1 100 100 1 0.5 0.2'']"

definition load_fails :: "extractors \<Rightarrow> string list option \<Rightarrow> bool" where
  "load_fails X file =
     (case file of
        None \<Rightarrow> True
      | Some [] \<Rightarrow> True
      | Some (line # ls) \<Rightarrow>
          (case readHeader X line of (n, T, C, B) \<Rightarrow> n < 0 \<or> length ls < nat n))"

definition is_error :: "'e + 'a \<Rightarrow> bool" where
  "is_error r = (case r of Inl e \<Rightarrow> True | Inr x \<Rightarrow> False)"

definition second_arrival :: "nat list WFQSimulator" where
  "second_arrival =
     (two_flows 5 200)\<lparr>currentTime := 1, linkBusy := True, nextPacketId := 2,
        generator := [1, 0, 1, 0],
        sources := [(wfq_Source 0 1 10 100 1 0 2)\<lparr>lastFinishTime := 100\<rparr>,
                    wfq_Source 1 1 200 200 1 2 3],
        stats := [SourceStats\<lparr>packetsGenerated := 1\<rparr>, SourceStats],
        eventQueue := [PACKET_ARRIVAL 2 1,
          PACKET_DEPARTURE 10 \<lparr>id_pkt = 1, sourceID = 0, size_pkt = 100, arrivalTime = 0,
            weight_pkt = 1, virtualFinishTime = 100\<rparr>]\<rparr>"

definition config :: "('s, 'p, 'g, 'z) simulator_scheme \<Rightarrow> int \<times> real \<times> real \<times> nat" where
  "config s = (numSources s, simulationTime s, linkCapacity s, bufferSize s)"


definition transmittedOf :: "('s, 'p, 'g, 'z) simulator_scheme \<Rightarrow> nat list" where
  "transmittedOf s = map packetsTransmitted (stats s)"

definition stuck :: "('s, 'p, 'g, 'z) simulator_scheme \<Rightarrow> bool" where
  "stuck s \<longleftrightarrow> linkBusy s \<and> departing (eventQueue s) = []"

definition nothing_sent ::
  "('s, 'p, 'g, 'z) simulator_scheme \<Rightarrow> ('s, 'p, 'g, 'z) simulator_scheme \<Rightarrow> bool" where
  "nothing_sent s s' \<longleftrightarrow>
     stuck s' \<and> transmittedOf s' = transmittedOf s \<and> bytesOf s' = bytesOf s"

definition one_uncounted :: "nat \<Rightarrow> ('s, 'x packet_scheme, 'g, 'z) simulator_scheme \<Rightarrow> bool" where
  "one_uncounted j s \<longleftrightarrow>
     (\<forall>i < length (sources s).
        packetsGenerated (stats s ! i) = accounted s i + (if i = j then 1 else 0))"

definition horizon_cut :: "nat list FCFSSimulator" where
  "horizon_cut =
     lost_in_flight\<lparr>nextPacketId := 2, generator := [20, 0],
       stats := [SourceStats\<lparr>packetsGenerated := 1\<rparr>],
       packetBuffer := [\<lparr>id_pkt = 1, sourceID = 0, size_pkt = 200, arrivalTime = 0\<rparr>],
       eventQueue := [PACKET_ARRIVAL 5 0]\<rparr>"

definition wfq_horizon_cut :: "nat list WFQSimulator" where
  "wfq_horizon_cut =
     (wfq_configured 10 10 5 [(wfq_Source 0 1 200 200 1 0 10)\<lparr>lastFinishTime := 200\<rparr>] [20, 0])
       \<lparr>nextPacketId := 2, stats := [SourceStats\<lparr>packetsGenerated := 1\<rparr>],
        packetBuffer := [\<lparr>id_pkt = 1, sourceID = 0, size_pkt = 200, arrivalTime = 0,
          weight_pkt = 1, virtualFinishTime = 200\<rparr>],
        eventQueue := [PACKET_ARRIVAL 5 0]\<rparr>"




definition droppedOf :: "('s, 'p, 'g, 'z) simulator_scheme \<Rightarrow> nat list" where
  "droppedOf s = map packetsDropped (stats s)"

definition third_arrival :: "nat list WFQSimulator" where
  "third_arrival =
     (two_flows 1 20)\<lparr>currentTime := 2, linkBusy := True, nextPacketId := 3,
        generator := [1, 0],
        sources := [(wfq_Source 0 1 10 100 1 0 2)\<lparr>lastFinishTime := 110\<rparr>,
                    wfq_Source 1 1 20 20 1 2 3],
        stats := [SourceStats\<lparr>packetsGenerated := 2\<rparr>, SourceStats],
        packetBuffer := [\<lparr>id_pkt = 2, sourceID = 0, size_pkt = 10, arrivalTime = 1,
            weight_pkt = 1, virtualFinishTime = 110\<rparr>],
        eventQueue := [
          PACKET_DEPARTURE 10 \<lparr>id_pkt = 1, sourceID = 0, size_pkt = 100, arrivalTime = 0,
            weight_pkt = 1, virtualFinishTime = 100\<rparr>]\<rparr>"

definition wfq_before_start ::
  "'g rng \<Rightarrow> nat \<times> nat \<times> nat \<Rightarrow> 'g WFQSimulator \<Rightarrow> 'g WFQSimulator option" where
  "wfq_before_start R k s =
     (case k of (ke, kd, kt) \<Rightarrow>
      if eventQueue s = [] then None
      else
        let (currentEvent, q) = pq_pop time_ev ke (eventQueue s);
            s1 = s\<lparr>eventQueue := q, currentTime := time_ev currentEvent\<rparr>
        in if currentTime s1 > simulationTime s1 then None
           else
             (case currentEvent of
                PACKET_ARRIVAL tm srcID \<Rightarrow>
                  (let s2 = scheduleNextArrival R srcID s1;
                       (newPacket, s3) = wfq_generatePacket R srcID s2
                   in wfq_admit kd newPacket s3)
              | PACKET_DEPARTURE tm p \<Rightarrow> Some (recordDeparture p s1)))"

definition wfq_start_sample :: "nat \<Rightarrow> 'g WFQSimulator \<Rightarrow> (nat \<times> real) list" where
  "wfq_start_sample kt t =
     (if linkBusy t \<or> packetBuffer t = [] then []
      else [(sourceID (fst (pq_pop virtualFinishTime kt (packetBuffer t))),
             systemVirtualTime (wfq_startNextTransmission kt t))])"

fun wfq_vsamples ::
  "'g rng \<Rightarrow> (nat \<times> nat \<times> nat) list \<Rightarrow> 'g WFQSimulator \<Rightarrow> (nat \<times> real) list" where
  "wfq_vsamples R [] s = []"
| "wfq_vsamples R (k # ks) s =
     (case wfq_before_start R k s of
        None \<Rightarrow> []
      | Some t \<Rightarrow>
          wfq_start_sample (snd (snd k)) t
            @ wfq_vsamples R ks (wfq_startNextTransmission (snd (snd k)) t))"

definition first_departure :: "nat list WFQSimulator" where
  "first_departure =
     the (wfq_before_start scripted (0, 0, 0)
       (the (the_state (wfq_run scripted (replicate 3 (0, 0, 0)) (two_flows 5 200)))))"






text \<open>
  Comparing the two simulators: \<open>erase\<close> forgets the two fields the WFQ packet adds and
  \<open>plain_source\<close> the field the WFQ source adds; \<open>same_run\<close> says that a WFQ state and
  an FCFS state agree in every member they share, the buffers in list order, and
  \<open>same_outcome\<close> that two loop results are of the same kind with such states.
\<close>

definition erase :: "wfq_packet \<Rightarrow> packet" where
  "erase p = \<lparr>id_pkt = id_pkt p, sourceID = sourceID p, size_pkt = size_pkt p,
     arrivalTime = arrivalTime p\<rparr>"

definition plain_source :: "wfq_source \<Rightarrow> source" where
  "plain_source src = Source (id_src src) (packetRate src) (minSize src) (maxSize src) (weight src)
     (startTime src) (endTime src)"

definition same_run :: "'g FCFSSimulator \<Rightarrow> 'g WFQSimulator \<Rightarrow> bool" where
  "same_run f w \<longleftrightarrow>
     numSources w = numSources f \<and> simulationTime w = simulationTime f \<and>
     linkCapacity w = linkCapacity f \<and> bufferSize w = bufferSize f \<and>
     currentTime w = currentTime f \<and> linkBusy w = linkBusy f \<and>
     nextPacketId w = nextPacketId f \<and> generator w = generator f \<and> stats w = stats f \<and>
     map plain_source (sources w) = sources f \<and>
     map erase (packetBuffer w) = packetBuffer f \<and>
     map (map_event erase) (eventQueue w) = eventQueue f"

fun same_outcome :: "'g FCFSSimulator loop \<Rightarrow> 'g WFQSimulator loop \<Rightarrow> bool" where
  "same_outcome (Continue f) (Continue w) = same_run f w"
| "same_outcome (Break f) (Break w) = same_run f w"
| "same_outcome a b = False"

text \<open>
  \<open>wfq_in_order\<close> follows a WFQ run and checks, at every call of
  \<^verbatim>\<open>startNextTransmission\<close>, that the virtual finish times of the buffered packets increase
  strictly in the order of their arrival.
\<close>

definition vft_ordered :: "'g WFQSimulator \<Rightarrow> bool" where
  "vft_ordered w \<longleftrightarrow> sorted_wrt (<) (map virtualFinishTime (packetBuffer w))"

fun wfq_in_order :: "'g rng \<Rightarrow> (nat \<times> nat \<times> nat) list \<Rightarrow> 'g WFQSimulator \<Rightarrow> bool" where
  "wfq_in_order R [] s = True"
| "wfq_in_order R (k # ks) s =
     (case wfq_before_start R k s of
        None \<Rightarrow> True
      | Some t \<Rightarrow> vft_ordered t \<and> wfq_in_order R ks (wfq_startNextTransmission (snd (snd k)) t))"

definition drops :: "('s, 'p, 'g, 'z) simulator_scheme \<Rightarrow> nat" where
  "drops s = sum_list (map packetsDropped (stats s))"

definition one_flow :: "nat \<Rightarrow> nat list FCFSSimulator" where
  "one_flow B = fcfs_configured 100 10 B [Source 0 1 10 100 1 0 3] [1, 90, 1, 0, 1, 40]"

definition wfq_one_flow :: "nat \<Rightarrow> nat list WFQSimulator" where
  "wfq_one_flow B = wfq_configured 100 10 B [wfq_Source 0 1 10 100 1 0 3] [1, 90, 1, 0, 1, 40]"

text \<open>
  Over the reals the order that \<open>wfq_in_order\<close> checks holds in every run of one source
  with positive sizes and a positive weight: the finish time of a new packet exceeds the
  last finish time of the source, which bounds the finish times in the buffer. The program
  adds in double arithmetic, where the sum can round to the last finish time itself, which
  is why the comparison of the two simulators takes the order as a hypothesis.
\<close>

definition single_ordered :: "'g WFQSimulator \<Rightarrow> bool" where
  "single_ordered w \<longleftrightarrow>
     length (sources w) = 1 \<and> vft_ordered w \<and>
     (\<forall>q \<in> set (packetBuffer w). virtualFinishTime q \<le> lastFinishTime (sources w ! 0))"

section \<open>Priority queue contract\<close>

lemma pq_minima_nonempty: "q \<noteq> [] \<Longrightarrow> pq_minima key q \<noteq> []"
proof -
  assume ne: "q \<noteq> []"
  let ?x = "arg_min_list key q"
  have in_q: "?x \<in> set q" using ne by (rule arg_min_list_in)
  have least: "\<forall>y \<in> set q. key ?x \<le> key y"
    using ne by (simp add: f_arg_min_list_f)
  from in_q obtain i where i: "i < length q" "q ! i = ?x" by (auto simp: in_set_conv_nth)
  then have "(i, ?x) \<in> set (enumerate 0 q)" by (simp add: in_set_enumerate_eq)
  with least have "i \<in> set (pq_minima key q)"
    by (force simp: pq_minima_def list_all_iff)
  then show ?thesis by auto
qed

lemma pq_minima_member:
  "i \<in> set (pq_minima key q) \<Longrightarrow> i < length q \<and> (\<forall>y \<in> set q. key (q ! i) \<le> key y)"
  by (auto simp: pq_minima_def list_all_iff in_set_enumerate_eq)

lemma pq_pop_split:
  assumes "q \<noteq> []" "pq_pop key k q = (x, r)"
  shows "\<exists>xs ys. q = xs @ x # ys \<and> r = xs @ ys \<and> (\<forall>y \<in> set q. key x \<le> key y)"
proof -
  let ?c = "pq_minima key q"
  let ?i = "?c ! (k mod length ?c)"
  have "?c \<noteq> []" using assms(1) by (rule pq_minima_nonempty)
  then have "?i \<in> set ?c" by simp
  then have i: "?i < length q" "\<forall>y \<in> set q. key (q ! ?i) \<le> key y"
    using pq_minima_member by blast+
  from assms(2) have x: "x = q ! ?i" and r: "r = take ?i q @ drop (Suc ?i) q"
    by (simp_all add: pq_pop_def Let_def)
  have "q = take ?i q @ x # drop (Suc ?i) q"
    using i(1) x by (simp add: id_take_nth_drop [symmetric])
  with r i(2) x show ?thesis by blast
qed

lemma departing_append [simp]: "departing (xs @ ys) = departing xs @ departing ys"
  by (induction xs rule: departing.induct) auto

lemma from_src_append [simp]: "from_src i (xs @ ys) = from_src i xs + from_src i ys"
  by (simp add: from_src_def)

lemma from_src_Cons [simp]: "from_src i (p # ps) = (if sourceID p = i then 1 else 0) + from_src i ps"
  by (simp add: from_src_def)

lemma from_src_Nil [simp]: "from_src i [] = 0"
  by (simp add: from_src_def)

lemma wellformed_scheduleEvent:
  "wellformed s \<Longrightarrow> src_ev e < length (sources s) \<Longrightarrow> wellformed (scheduleEvent e s)"
  by (auto simp: wellformed_def scheduleEvent_def pq_push_def)

lemma conserved_schedule_arrival:
  "conserved L s \<Longrightarrow> conserved L (scheduleEvent (PACKET_ARRIVAL tm i) s)"
  by (simp add: conserved_def scheduleEvent_def pq_push_def accounted_def)

lemma wellformed_scheduleNextArrival:
  "wellformed s \<Longrightarrow> i < length (sources s) \<Longrightarrow> wellformed (scheduleNextArrival R i s)"
  by (auto simp: scheduleNextArrival_def Let_def wellformed_def scheduleEvent_def pq_push_def
      split: prod.splits)

lemma conserved_scheduleNextArrival:
  "conserved L s \<Longrightarrow> conserved L (scheduleNextArrival R i s)"
  by (auto simp: scheduleNextArrival_def Let_def conserved_def scheduleEvent_def pq_push_def
      accounted_def split: prod.splits)

lemma wellformed_fcfs_arrive:
  assumes "wellformed s" "i < length (sources s)" "fcfs_generatePacket R i s = (p, s')"
  shows "wellformed (fcfs_admit p s')"
  using assms
  by (auto simp: fcfs_generatePacket_def fcfs_admit_def updateStats_def Let_def wellformed_def
      split: prod.splits)

lemma conserved_fcfs_arrive:
  assumes "wellformed s" "conserved L s" "i < length (sources s)" "fcfs_generatePacket R i s = (p, s')"
  shows "conserved L (fcfs_admit p s')"
  using assms
  by (auto simp: fcfs_generatePacket_def fcfs_admit_def updateStats_def Let_def wellformed_def
      conserved_def accounted_def countGenerated_def countDropped_def nth_list_update
      split: prod.splits)

lemma wellformed_fcfs_startNextTransmission:
  "wellformed s \<Longrightarrow> wellformed (fcfs_startNextTransmission s)"
  by (cases "packetBuffer s")
     (auto simp: fcfs_startNextTransmission_def Let_def wellformed_def scheduleEvent_def pq_push_def)

lemma conserved_fcfs_startNextTransmission:
  assumes "wellformed s" "conserved L s"
  shows "\<exists>L'. conserved L' (fcfs_startNextTransmission s)"
proof (cases "linkBusy s \<or> packetBuffer s = []")
  case True
  then show ?thesis using assms(2) by (auto simp: fcfs_startNextTransmission_def)
next
  case False
  then obtain p ps where buf: "packetBuffer s = p # ps" by (cases "packetBuffer s") auto
  from False assms(2) have idle: "departing (eventQueue s) = []" "L = None"
    by (auto simp: conserved_def)
  from assms(1) buf have p: "sourceID p < length (sources s)" by (simp add: wellformed_def)
  show ?thesis
  proof (cases "currentTime s + real_of_int (size_pkt p) / linkCapacity s \<le> simulationTime s")
    case True
    with False buf idle assms(2) have "conserved None (fcfs_startNextTransmission s)"
      by (auto simp: fcfs_startNextTransmission_def Let_def conserved_def scheduleEvent_def
          pq_push_def accounted_def)
    then show ?thesis ..
  next
    case late: False
    with False buf idle assms(2) p have "conserved (Some (sourceID p)) (fcfs_startNextTransmission s)"
      by (auto simp: fcfs_startNextTransmission_def Let_def conserved_def scheduleEvent_def
          pq_push_def accounted_def)
    then show ?thesis ..
  qed
qed

lemma wellformed_recordDeparture:
  "wellformed s \<Longrightarrow> wellformed (recordDeparture p s)"
  by (auto simp: recordDeparture_def Let_def wellformed_def updateStats_def)

lemma wellformed_pop:
  assumes "wellformed s" "eventQueue s = xs @ e # ys"
  shows "wellformed (s\<lparr>eventQueue := xs @ ys, currentTime := t\<rparr>)"
  using assms by (auto simp: wellformed_def)

lemma wellformed_popped:
  assumes "wellformed s" "eventQueue s = xs @ e # ys"
  shows "src_ev e < length (sources s)" and "time_ev e \<le> simulationTime s"
  using assms by (auto simp: wellformed_def)

lemma conserved_pop_arrival:
  assumes "conserved L s" "eventQueue s = xs @ PACKET_ARRIVAL tm i # ys"
  shows "conserved L (s\<lparr>eventQueue := xs @ ys, currentTime := t\<rparr>)"
  using assms by (auto simp: conserved_def accounted_def)

lemma conserved_pop_departure:
  assumes "wellformed s" "conserved L s" "eventQueue s = xs @ PACKET_DEPARTURE tm p # ys"
  shows "conserved None (recordDeparture p (s\<lparr>eventQueue := xs @ ys, currentTime := t\<rparr>))"
proof -
  from assms(2,3) have busy: "linkBusy s" by (auto simp: conserved_def)
  with assms(2,3) have one: "departing xs = []" "departing ys = []" "L = None"
    by (auto simp: conserved_def split: if_splits)
  from assms(1,3) have p: "sourceID p < length (stats s)" by (auto simp: wellformed_def)
  show ?thesis
    using assms(2,3) one p
    by (auto simp: conserved_def accounted_def recordDeparture_def updateStats_def Let_def
        countTransmitted_def nth_list_update)
qed

lemma fcfs_handleArrivalEvent_inv:
  assumes "wellformed s" "conserved L s" "i < length (sources s)"
  shows "fcfs_inv (fcfs_handleArrivalEvent R i s)"
proof -
  let ?s1 = "scheduleNextArrival R i s"
  obtain p s2 where g: "fcfs_generatePacket R i ?s1 = (p, s2)" by (cases "fcfs_generatePacket R i ?s1")
  have len: "i < length (sources ?s1)" using assms(3)
    by (simp add: scheduleNextArrival_def Let_def scheduleEvent_def split: prod.splits)
  have w1: "wellformed ?s1" using assms(1,3) by (rule wellformed_scheduleNextArrival)
  have c1: "conserved L ?s1" using assms(2) by (rule conserved_scheduleNextArrival)
  have w2: "wellformed (fcfs_admit p s2)" using w1 len g by (rule wellformed_fcfs_arrive)
  have c2: "conserved L (fcfs_admit p s2)" using w1 c1 len g by (rule conserved_fcfs_arrive)
  have "wellformed (fcfs_startNextTransmission (fcfs_admit p s2))"
    using w2 by (rule wellformed_fcfs_startNextTransmission)
  moreover have "\<exists>L'. conserved L' (fcfs_startNextTransmission (fcfs_admit p s2))"
    using w2 c2 by (rule conserved_fcfs_startNextTransmission)
  ultimately show ?thesis using g by (simp add: fcfs_inv_def fcfs_handleArrivalEvent_def)
qed

lemma fcfs_iteration_inv:
  assumes "fcfs_inv s"
  shows "case fcfs_iteration R k s of
           Continue s' \<Rightarrow> fcfs_inv s'
         | Break s' \<Rightarrow> s' = s \<and> eventQueue s = []
         | Undefined \<Rightarrow> False"
proof (cases "eventQueue s = []")
  case True
  then show ?thesis by (simp add: fcfs_iteration_def)
next
  case False
  from assms obtain L where w: "wellformed s" and c: "conserved L s" by (auto simp: fcfs_inv_def)
  obtain e q where pop: "pq_pop time_ev k (eventQueue s) = (e, q)"
    by (cases "pq_pop time_ev k (eventQueue s)")
  from pq_pop_split [OF False pop] obtain xs ys where
    split: "eventQueue s = xs @ e # ys" "q = xs @ ys" by blast
  let ?s1 = "s\<lparr>eventQueue := xs @ ys, currentTime := time_ev e\<rparr>"
  have wp1: "wellformed ?s1" using w split(1) by (rule wellformed_pop)
  note wp = wp1 wellformed_popped [OF w split(1)]
  show ?thesis
  proof (cases e)
    case (PACKET_ARRIVAL tm i)
    have "conserved L ?s1" using c split(1) unfolding PACKET_ARRIVAL by (rule conserved_pop_arrival)
    moreover have "i < length (sources ?s1)" using wp(2) PACKET_ARRIVAL by simp
    ultimately have "fcfs_inv (fcfs_handleArrivalEvent R i ?s1)"
      using wp(1) by (intro fcfs_handleArrivalEvent_inv)
    then show ?thesis using False pop split(2) wp(3) PACKET_ARRIVAL
      by (simp add: fcfs_iteration_def Let_def)
  next
    case (PACKET_DEPARTURE tm p)
    have c1: "conserved None (recordDeparture p ?s1)"
      using w c split(1) unfolding PACKET_DEPARTURE by (rule conserved_pop_departure)
    have w1: "wellformed (recordDeparture p ?s1)" using wp(1) by (rule wellformed_recordDeparture)
    have "fcfs_inv (fcfs_handleDepartureEvent p ?s1)"
      using wellformed_fcfs_startNextTransmission [OF w1]
        conserved_fcfs_startNextTransmission [OF w1 c1]
      by (simp add: fcfs_inv_def fcfs_handleDepartureEvent_def)
    then show ?thesis using False pop split(2) wp(3) PACKET_DEPARTURE
      by (simp add: fcfs_iteration_def Let_def)
  qed
qed



lemma departure_in_departing:
  "PACKET_DEPARTURE tm p \<in> set q \<Longrightarrow> p \<in> set (departing q)"
  by (induction q rule: departing.induct) auto

lemma valid_scheduleNextArrival [simp]: "valid (scheduleNextArrival R i s) = valid s"
  by (simp add: valid_def scheduleNextArrival_def Let_def scheduleEvent_def split: prod.splits)

lemma valid_fcfs_arrive:
  "fcfs_generatePacket R i s = (p, s') \<Longrightarrow> valid (fcfs_admit p s') = valid s"
  by (auto simp: valid_def fcfs_generatePacket_def fcfs_admit_def updateStats_def Let_def
      split: prod.splits)

lemma valid_fcfs_startNextTransmission [simp]: "valid (fcfs_startNextTransmission s) = valid s"
  by (simp add: valid_def fcfs_startNextTransmission_def Let_def scheduleEvent_def)

lemma valid_recordDeparture [simp]: "valid (recordDeparture p s) = valid s"
  by (simp add: valid_def recordDeparture_def Let_def updateStats_def)

lemma valid_pop [simp]: "valid (s\<lparr>eventQueue := q, currentTime := t\<rparr>) = valid s"
  by (simp add: valid_def)

lemma timed_scheduleNextArrival:
  assumes "rng_ok R" "valid s" "timed s" "i < length (sources s)"
  shows "timed (scheduleNextArrival R i s)"
proof -
  from assms(2,4) have "0 < packetRate (sources s ! i)" by (simp add: valid_def)
  with assms(1) have "0 \<le> fst (arrivalDist R (packetRate (sources s ! i)) (generator s))"
    by (simp add: rng_ok_def)
  with assms(3) show ?thesis
    by (auto simp: timed_def scheduleNextArrival_def Let_def scheduleEvent_def pq_push_def
        sumBytes_def bytesOf_def split: prod.splits)
qed

lemma drawn_size_positive:
  assumes "rng_ok R" "valid s" "i < length (sources s)"
  shows "0 < fst (sizeDist R (minSize (sources s ! i)) (maxSize (sources s ! i)) g)"
proof -
  let ?src = "sources s ! i"
  from assms(2,3) have m: "0 < minSize ?src" "minSize ?src \<le> maxSize ?src"
    by (simp_all add: valid_def)
  from assms(1) m(2) have "minSize ?src \<le> fst (sizeDist R (minSize ?src) (maxSize ?src) g)"
    unfolding rng_ok_def by blast
  with m(1) show ?thesis by linarith
qed

lemma bytesOf_same:
  assumes "\<And>st. bytesTransmitted (f st) = bytesTransmitted st"
  shows "bytesOf (updateStats j f s) = bytesOf s"
proof (cases "j < length (stats s)")
  case True
  then have "(map bytesTransmitted (stats s))[j := bytesTransmitted (stats s ! j)]
      = map bytesTransmitted (stats s)"
    by (simp add: list_update_same_conv)
  then show ?thesis by (simp add: bytesOf_def updateStats_def map_update assms)
next
  case False
  then show ?thesis by (simp add: bytesOf_def updateStats_def list_update_beyond)
qed

lemma fcfs_arrive_fields:
  assumes "fcfs_generatePacket R i s = (p, s')"
  shows "currentTime (fcfs_admit p s') = currentTime s"
    and "simulationTime (fcfs_admit p s') = simulationTime s"
    and "linkCapacity (fcfs_admit p s') = linkCapacity s"
    and "eventQueue (fcfs_admit p s') = eventQueue s"
    and "linkBusy (fcfs_admit p s') = linkBusy s"
    and "bytesOf (fcfs_admit p s') = bytesOf s"
    and "set (packetBuffer (fcfs_admit p s')) \<subseteq> insert p (set (packetBuffer s))"
    and "size_pkt p = fst (sizeDist R (minSize (sources s ! i)) (maxSize (sources s ! i)) (generator s))"
    and "sourceID p = i"
proof -
  have b: "bytesOf (fcfs_admit p s') = bytesOf s'"
    by (simp add: fcfs_admit_def bytesOf_same countDropped_def) (simp add: bytesOf_def)
  have "bytesOf s' = bytesOf s"
    using assms
    by (auto simp: fcfs_generatePacket_def Let_def bytesOf_same countGenerated_def split: prod.splits)
       (simp add: bytesOf_def)
  with b show "bytesOf (fcfs_admit p s') = bytesOf s" by simp
qed (use assms in \<open>auto simp: fcfs_generatePacket_def fcfs_admit_def updateStats_def Let_def
      split: prod.splits\<close>)


lemma fcfs_startNextTransmission_idle:
  "linkBusy s \<or> packetBuffer s = [] \<Longrightarrow> fcfs_startNextTransmission s = s"
  by (simp add: fcfs_startNextTransmission_def)



lemma timed_pop:
  assumes "valid s" "timed s" "eventQueue s = xs @ e # ys"
    "\<forall>y \<in> set (eventQueue s). time_ev e \<le> time_ev y" "time_ev e \<le> simulationTime s"
  shows "timed (s\<lparr>eventQueue := xs @ ys, currentTime := time_ev e\<rparr>)"
proof -
  from assms(2,3) have le: "currentTime s \<le> time_ev e" by (simp add: timed_def)
  with assms(2-5) show ?thesis
    by (auto simp: timed_def bytesOf_def)
qed

lemma bytesOf_recordDeparture:
  "bytesOf (recordDeparture p s) =
     (bytesOf s)[sourceID p := bytesOf s ! sourceID p + real_of_int (size_pkt p)]"
  by (cases "sourceID p < length (stats s)")
     (simp_all add: bytesOf_def recordDeparture_def updateStats_def Let_def countTransmitted_def
        map_update list_update_beyond)

lemma timed_recordDeparture:
  assumes "timed s" "sourceID p < length (stats s)" "0 \<le> size_pkt p"
    "departing (eventQueue s) = []"
  shows "timed (recordDeparture p s)"
proof -
  have nodep: "PACKET_DEPARTURE tm q \<notin> set (eventQueue s)" for tm q
    using assms(4) departure_in_departing by fastforce
  have flds: "currentTime (recordDeparture p s) = currentTime s"
    "simulationTime (recordDeparture p s) = simulationTime s"
    "linkCapacity (recordDeparture p s) = linkCapacity s"
    "eventQueue (recordDeparture p s) = eventQueue s"
    "packetBuffer (recordDeparture p s) = packetBuffer s"
    by (simp_all add: recordDeparture_def updateStats_def Let_def)
  have "0 \<le> bytesOf s ! sourceID p"
    using assms(1,2) by (simp add: timed_def bytesOf_def)
  then have st: "\<forall>x \<in> set (bytesOf (recordDeparture p s)). 0 \<le> x"
    using assms(1,3) unfolding bytesOf_recordDeparture
    by (auto simp: timed_def dest!: set_update_subset_insert [THEN subsetD])
  from assms(1) have a: "0 \<le> currentTime s" "currentTime s \<le> simulationTime s"
    "\<forall>e \<in> set (eventQueue s). currentTime s \<le> time_ev e"
    "\<forall>p \<in> set (packetBuffer s). 0 \<le> size_pkt p"
    by (simp_all add: timed_def)
  show ?thesis
    unfolding timed_def flds
    by (simp add: a st nodep)
qed

lemma valid_fcfs_handleArrivalEvent [simp]: "valid (fcfs_handleArrivalEvent R i s) = valid s"
proof -
  obtain p s2 where g: "fcfs_generatePacket R i (scheduleNextArrival R i s) = (p, s2)"
    by (cases "fcfs_generatePacket R i (scheduleNextArrival R i s)")
  show ?thesis using valid_fcfs_arrive [OF g] g by (simp add: fcfs_handleArrivalEvent_def)
qed

lemma sources_scheduleNextArrival [simp]: "sources (scheduleNextArrival R i s) = sources s"
  by (simp add: scheduleNextArrival_def Let_def scheduleEvent_def split: prod.splits)



lemma fcfs_loop_invariant:
  assumes step: "\<And>k s. I s \<Longrightarrow>
      (case fcfs_iteration R k s of
         Continue s' \<Rightarrow> I s' | Break s' \<Rightarrow> s' = s \<and> eventQueue s = [] | Undefined \<Rightarrow> False)"
    and "I s"
  shows "case fcfs_loop R ks s of
           Continue s' \<Rightarrow> I s'
         | Break s' \<Rightarrow> I s' \<and> eventQueue s' = []
         | Undefined \<Rightarrow> False"
  using assms(2)
proof (induction ks arbitrary: s)
  case Nil
  then show ?case by simp
next
  case (Cons k ks)
  show ?case
  proof (cases "fcfs_iteration R k s")
    case (Continue s')
    with step [OF Cons.prems, of k] have "I s'" by simp
    from Cons.IH [OF this] show ?thesis by (simp add: Continue)
  next
    case (Break s')
    with step [OF Cons.prems, of k] Cons.prems show ?thesis by simp
  next
    case Undefined
    with step [OF Cons.prems, of k] show ?thesis by simp
  qed
qed

lemma prime_wellformed:
  assumes "wellformed s" "\<forall>src \<in> set srcs. id_src src < length (sources s)"
  shows "wellformed (foldl (\<lambda>s' src. scheduleEvent (PACKET_ARRIVAL (startTime src) (id_src src)) s') s srcs)"
  using assms
proof (induction srcs arbitrary: s)
  case Nil
  then show ?case by simp
next
  case (Cons a srcs)
  let ?s = "scheduleEvent (PACKET_ARRIVAL (startTime a) (id_src a)) s"
  have "wellformed ?s" using Cons.prems by (intro wellformed_scheduleEvent) simp_all
  moreover have "sources ?s = sources s" by (simp add: scheduleEvent_def)
  ultimately show ?case using Cons.prems Cons.IH [of ?s] by simp
qed

lemma prime_conserved:
  assumes "conserved L s"
  shows "conserved L (foldl (\<lambda>s' src. scheduleEvent (PACKET_ARRIVAL (startTime src) (id_src src)) s') s srcs)"
  using assms
  by (induction srcs arbitrary: s) (simp_all add: conserved_schedule_arrival)

lemma valid_scheduleEvent [simp]: "valid (scheduleEvent e s) = valid s"
  by (simp add: valid_def scheduleEvent_def)

lemma prime_valid:
  "valid (foldl (\<lambda>s' src. scheduleEvent (PACKET_ARRIVAL (startTime src) (id_src src)) s') s srcs) = valid s"
  by (induction srcs arbitrary: s) simp_all

lemma timed_schedule_arrival:
  "timed s \<Longrightarrow> currentTime s \<le> tm \<Longrightarrow> timed (scheduleEvent (PACKET_ARRIVAL tm i) s)"
  by (auto simp: timed_def scheduleEvent_def pq_push_def sumBytes_def bytesOf_def)

lemma prime_timed:
  assumes "timed s" "\<forall>src \<in> set srcs. currentTime s \<le> startTime src"
  shows "timed (foldl (\<lambda>s' src. scheduleEvent (PACKET_ARRIVAL (startTime src) (id_src src)) s') s srcs)"
  using assms
proof (induction srcs arbitrary: s)
  case Nil
  then show ?case by simp
next
  case (Cons a srcs)
  let ?s = "scheduleEvent (PACKET_ARRIVAL (startTime a) (id_src a)) s"
  have "timed ?s" using Cons.prems by (intro timed_schedule_arrival) simp_all
  moreover have "currentTime ?s = currentTime s" by (simp add: scheduleEvent_def)
  ultimately show ?case using Cons.prems Cons.IH [of ?s] by simp
qed

lemma loaded_wellformed: "loaded s \<Longrightarrow> wellformed s"
  by (simp add: loaded_def wellformed_def)

lemma loaded_conserved: "loaded s \<Longrightarrow> conserved None s"
  by (simp add: loaded_def conserved_def accounted_def SourceStats_def)

lemma loaded_timed: "loaded s \<Longrightarrow> valid s \<Longrightarrow> timed s"
  by (simp add: loaded_def timed_def valid_def sumBytes_def bytesOf_def SourceStats_def sum_list_replicate)

lemma loaded_prime:
  assumes "loaded s"
  shows "wellformed (prime s)" and "conserved None (prime s)"
    and "valid s \<Longrightarrow> valid (prime s)" and "valid s \<Longrightarrow> timed (prime s)"
proof -
  have ids: "\<forall>src \<in> set (sources s). id_src src < length (sources s)"
    using assms by (auto simp: loaded_def in_set_conv_nth)
  show "wellformed (prime s)"
    unfolding prime_def using loaded_wellformed [OF assms] ids by (rule prime_wellformed)
  show "conserved None (prime s)"
    unfolding prime_def using loaded_conserved [OF assms] by (rule prime_conserved)
  show "valid (prime s)" if "valid s" using that by (simp add: prime_def prime_valid)
  show "timed (prime s)" if "valid s"
    unfolding prime_def
  proof (rule prime_timed)
    show "timed s" using assms that by (rule loaded_timed)
    show "\<forall>src \<in> set (sources s). currentTime s \<le> startTime src"
      using assms that by (simp add: loaded_def valid_def)
  qed
qed

lemma wfq_generatePacket_fields:
  assumes "wfq_generatePacket R i s = (p, s')"
  shows "sourceID p = i"
    and "size_pkt p = fst (sizeDist R (minSize (sources s ! i)) (maxSize (sources s ! i)) (generator s))"
    and "weight_pkt p = weight (sources s ! i)"
    and "virtualFinishTime p =
      max (systemVirtualTime s) (lastFinishTime (sources s ! i)) + real_of_int (size_pkt p) / weight (sources s ! i)"
    and "stats s' = (stats s)[i := countGenerated (stats s ! i)]"
    and "sources s' = (sources s)[i := (sources s ! i)\<lparr>lastFinishTime := virtualFinishTime p\<rparr>]"
    and "packetBuffer s' = packetBuffer s" and "eventQueue s' = eventQueue s"
    and "linkBusy s' = linkBusy s" and "currentTime s' = currentTime s"
    and "simulationTime s' = simulationTime s" and "linkCapacity s' = linkCapacity s"
    and "bufferSize s' = bufferSize s" and "numSources s' = numSources s"
    and "systemVirtualTime s' = systemVirtualTime s"
    and "arrivalTime p = currentTime s" and "id_pkt p = nextPacketId s"
    and "nextPacketId s' = nextPacketId s + 1"
  using assms
  by (auto simp: wfq_generatePacket_def updateStats_def Let_def split: prod.splits)

lemma wfq_admit_cases:
  assumes "wfq_admit k p s = Some s'"
  obtains (room) "length (packetBuffer s) < bufferSize s"
      "s' = s\<lparr>packetBuffer := packetBuffer s @ [p]\<rparr>"
    | (full) xs d ys where "\<not> length (packetBuffer s) < bufferSize s"
      "packetBuffer s = xs @ d # ys" "\<forall>y \<in> set (packetBuffer s). virtualFinishTime d \<le> virtualFinishTime y"
      "s' = (updateStats (sourceID d) countDropped s)\<lparr>packetBuffer := xs @ ys @ [p]\<rparr>"
proof (cases "length (packetBuffer s) < bufferSize s")
  case True
  with assms have "s' = s\<lparr>packetBuffer := packetBuffer s @ [p]\<rparr>"
    by (simp add: wfq_admit_def pq_push_def)
  with True show ?thesis by (rule room)
next
  case False
  with assms have ne: "packetBuffer s \<noteq> []" by (auto simp: wfq_admit_def)
  obtain d b where pop: "pq_pop virtualFinishTime k (packetBuffer s) = (d, b)"
    by (cases "pq_pop virtualFinishTime k (packetBuffer s)")
  from pq_pop_split [OF ne pop] obtain xs ys where
    sp: "packetBuffer s = xs @ d # ys" "b = xs @ ys"
    "\<forall>y \<in> set (packetBuffer s). virtualFinishTime d \<le> virtualFinishTime y" by blast
  from assms False ne pop sp(2)
  have "s' = (updateStats (sourceID d) countDropped s)\<lparr>packetBuffer := xs @ ys @ [p]\<rparr>"
    by (simp add: wfq_admit_def Let_def pq_push_def updateStats_def)
  with False sp(1,3) show ?thesis by (rule full)
qed

lemma wfq_startNextTransmission_idle:
  "linkBusy s \<or> packetBuffer s = [] \<Longrightarrow> wfq_startNextTransmission k s = s"
  by (simp add: wfq_startNextTransmission_def)

lemma wfq_startNextTransmission_cases:
  assumes "\<not> linkBusy s" "packetBuffer s \<noteq> []"
  obtains xs p ys where "packetBuffer s = xs @ p # ys"
    "\<forall>y \<in> set (packetBuffer s). virtualFinishTime p \<le> virtualFinishTime y"
    "wfq_startNextTransmission k s =
       scheduleEvent (PACKET_DEPARTURE (currentTime s + real_of_int (size_pkt p) / linkCapacity s) p)
         (s\<lparr>linkBusy := True, packetBuffer := xs @ ys,
            systemVirtualTime := virtualFinishTime p - real_of_int (size_pkt p) / weight_pkt p\<rparr>)"
proof -
  obtain p b where pop: "pq_pop virtualFinishTime k (packetBuffer s) = (p, b)"
    by (cases "pq_pop virtualFinishTime k (packetBuffer s)")
  from pq_pop_split [OF assms(2) pop] obtain xs ys where
    sp: "packetBuffer s = xs @ p # ys" "b = xs @ ys"
    "\<forall>y \<in> set (packetBuffer s). virtualFinishTime p \<le> virtualFinishTime y" by blast
  have "wfq_startNextTransmission k s =
       scheduleEvent (PACKET_DEPARTURE (currentTime s + real_of_int (size_pkt p) / linkCapacity s) p)
         (s\<lparr>linkBusy := True, packetBuffer := xs @ ys,
            systemVirtualTime := virtualFinishTime p - real_of_int (size_pkt p) / weight_pkt p\<rparr>)"
    using assms pop sp(2) by (simp add: wfq_startNextTransmission_def Let_def)
  with sp(1,3) show ?thesis by (rule that)
qed

lemma wellformed_wfq_arrive:
  assumes "wellformed s" "i < length (sources s)" "wfq_generatePacket R i s = (p, s')"
    "wfq_admit k p s' = Some s''"
  shows "wellformed s''"
proof -
  note g = wfq_generatePacket_fields [OF assms(3)]
  have w': "wellformed s'" using assms(1) by (simp add: wellformed_def g)
  have p: "sourceID p < length (sources s')" using assms(2) by (simp add: g)
  from assms(4) show ?thesis
  proof (cases rule: wfq_admit_cases)
    case room
    with w' p show ?thesis by (auto simp: wellformed_def)
  next
    case (full xs d ys)
    with w' p show ?thesis by (auto simp: wellformed_def updateStats_def)
  qed
qed

lemma conserved_wfq_arrive:
  assumes "wellformed s" "conserved L s" "i < length (sources s)"
    "wfq_generatePacket R i s = (p, s')" "wfq_admit k p s' = Some s''"
  shows "conserved L s''"
proof -
  note g = wfq_generatePacket_fields [OF assms(4)]
  from assms(1) have len: "length (stats s) = length (sources s)" by (simp add: wellformed_def)
  from assms(5) show ?thesis
  proof (cases rule: wfq_admit_cases)
    case room
    with assms(2,3) len show ?thesis
      by (auto simp: conserved_def accounted_def g countGenerated_def nth_list_update)
  next
    case (full xs d ys)
    from assms(1) full(2) have d: "sourceID d < length (stats s)"
      by (simp add: wellformed_def g)
    with assms(2,3) len full show ?thesis
      by (auto simp: conserved_def accounted_def g countGenerated_def countDropped_def
          updateStats_def nth_list_update)
  qed
qed

lemma valid_wfq_arrive:
  assumes "valid s" "wfq_generatePacket R i s = (p, s')" "wfq_admit k p s' = Some s''"
  shows "valid s''"
proof -
  note g = wfq_generatePacket_fields [OF assms(2)]
  have "valid s'"
  proof (cases "i < length (sources s)")
    case True
    then have "sources s ! i \<in> set (sources s)" by simp
    with assms(1) show ?thesis
      unfolding valid_def g by (auto dest!: set_update_subset_insert [THEN subsetD])
  next
    case False
    with assms(1) show ?thesis by (simp add: valid_def g list_update_beyond)
  qed
  with assms(3) show ?thesis
    by (cases rule: wfq_admit_cases) (auto simp: valid_def updateStats_def)
qed

lemma timed_wfq_arrive:
  assumes "rng_ok R" "valid s" "timed s" "i < length (sources s)"
    "wfq_generatePacket R i s = (p, s')" "wfq_admit k p s' = Some s''"
  shows "timed s''"
proof -
  note g = wfq_generatePacket_fields [OF assms(5)]
  have sz: "0 \<le> size_pkt p"
    using drawn_size_positive [OF assms(1,2,4), of "generator s"] g(2) by simp
  have b': "bytesOf s' = bytesOf s"
    using bytesOf_same [of countGenerated i s] by (simp add: bytesOf_def g(5) countGenerated_def updateStats_def)
  from assms(6) show ?thesis
  proof (cases rule: wfq_admit_cases)
    case room
    have "bytesOf s'' = bytesOf s" using b' by (simp add: room(2) bytesOf_def)
    with assms(3) sz show ?thesis
      unfolding timed_def sumBytes_def by (auto simp: room(2) g)
  next
    case (full xs d ys)
    have "bytesOf s'' = bytesOf s'"
      using bytesOf_same [of countDropped "sourceID d" s']
      by (simp add: full(4) bytesOf_def countDropped_def updateStats_def)
    with b' have "bytesOf s'' = bytesOf s" by simp
    moreover have "set (packetBuffer s'') \<subseteq> insert p (set (packetBuffer s))"
      using full(2) by (auto simp: full(4) g(7) updateStats_def)
    ultimately show ?thesis
      using assms(3) sz unfolding timed_def sumBytes_def
      by (auto simp: full(4) g updateStats_def)
  qed
qed

lemma wfq_startNextTransmission_preserves:
  assumes "wellformed s"
  shows "wellformed (wfq_startNextTransmission k s)"
    and "conserved L s \<Longrightarrow> \<exists>L'. conserved L' (wfq_startNextTransmission k s)"
    and "valid (wfq_startNextTransmission k s) = valid s"
    and "valid s \<Longrightarrow> timed s \<Longrightarrow> timed (wfq_startNextTransmission k s)"
proof -
  let ?s' = "wfq_startNextTransmission k s"
  have "wellformed ?s' \<and> (conserved L s \<longrightarrow> (\<exists>L'. conserved L' ?s')) \<and> valid ?s' = valid s
      \<and> (valid s \<longrightarrow> timed s \<longrightarrow> timed ?s')"
  proof (cases "linkBusy s \<or> packetBuffer s = []")
    case True
    then show ?thesis using assms by (auto simp: wfq_startNextTransmission_idle)
  next
    case False
    then have idle: "\<not> linkBusy s" and ne: "packetBuffer s \<noteq> []" by simp_all
    from idle ne obtain xs p ys where buf: "packetBuffer s = xs @ p # ys"
      and st: "?s' =
       scheduleEvent (PACKET_DEPARTURE (currentTime s + real_of_int (size_pkt p) / linkCapacity s) p)
         (s\<lparr>linkBusy := True, packetBuffer := xs @ ys,
            systemVirtualTime := virtualFinishTime p - real_of_int (size_pkt p) / weight_pkt p\<rparr>)"
      by (rule wfq_startNextTransmission_cases [of s k]) blast
    from assms buf have p: "sourceID p < length (sources s)" by (simp add: wellformed_def)
    have w: "wellformed ?s'"
      using assms buf p unfolding st
      by (auto simp: wellformed_def scheduleEvent_def pq_push_def)
    have c: "\<exists>L'. conserved L' ?s'" if c0: "conserved L s"
    proof -
      from idle c0 have i0: "departing (eventQueue s) = []" "L = None"
        by (auto simp: conserved_def)
      show ?thesis
      proof (cases "currentTime s + real_of_int (size_pkt p) / linkCapacity s \<le> simulationTime s")
        case True
        with buf i0 c0 have "conserved None ?s'"
          unfolding st
          by (auto simp: conserved_def scheduleEvent_def pq_push_def accounted_def)
        then show ?thesis ..
      next
        case late: False
        with buf i0 c0 p have "conserved (Some (sourceID p)) ?s'"
          unfolding st
          by (auto simp: conserved_def scheduleEvent_def pq_push_def accounted_def)
        then show ?thesis ..
      qed
    qed
    have v: "valid ?s' = valid s" unfolding st by (simp add: valid_def scheduleEvent_def)
    have t: "timed ?s'" if v0: "valid s" and t0: "timed s"
    proof -
      from v0 have C: "0 < linkCapacity s" by (simp add: valid_def)
      from t0 buf have sz: "0 \<le> size_pkt p" by (simp add: timed_def)
      have t1: "currentTime s \<le> currentTime s + real_of_int (size_pkt p) / linkCapacity s"
        using C sz by simp
      show ?thesis
        unfolding st using buf t0 sz t1
        by (auto simp: timed_def scheduleEvent_def pq_push_def bytesOf_def)
    qed
    from w c v t show ?thesis by blast
  qed
  then show "wellformed ?s'" "conserved L s \<Longrightarrow> \<exists>L'. conserved L' ?s'" "valid ?s' = valid s"
    "valid s \<Longrightarrow> timed s \<Longrightarrow> timed ?s'" by blast+
qed

lemma wfq_handleArrivalEvent_preserves:
  assumes "wellformed s" "conserved L s" "i < length (sources s)"
    "wfq_handleArrivalEvent R kd kt i s = Some s'"
  shows "wfq_inv s'" and "valid s \<Longrightarrow> valid s'" and "rng_ok R \<Longrightarrow> valid s \<Longrightarrow> timed s \<Longrightarrow> timed s'"
proof -
  let ?s1 = "scheduleNextArrival R i s"
  obtain p s2 where g: "wfq_generatePacket R i ?s1 = (p, s2)" by (cases "wfq_generatePacket R i ?s1")
  from assms(4) g obtain s3 where a: "wfq_admit kd p s2 = Some s3"
    and s': "s' = wfq_startNextTransmission kt s3"
    by (auto simp: wfq_handleArrivalEvent_def)
  have len: "i < length (sources ?s1)" using assms(3) by simp
  have w1: "wellformed ?s1" using assms(1,3) by (rule wellformed_scheduleNextArrival)
  have c1: "conserved L ?s1" using assms(2) by (rule conserved_scheduleNextArrival)
  have w3: "wellformed s3" using w1 len g a by (rule wellformed_wfq_arrive)
  have c3: "conserved L s3" using w1 c1 len g a by (rule conserved_wfq_arrive)
  show "wfq_inv s'"
    unfolding s' wfq_inv_def using wfq_startNextTransmission_preserves(1,2) [OF w3] c3 by blast
  show "valid s'" if "valid s"
  proof -
    from that have "valid ?s1" by simp
    then have "valid s3" using g a by (rule valid_wfq_arrive)
    then show ?thesis unfolding s' using wfq_startNextTransmission_preserves(3) [OF w3] by simp
  qed
  show "timed s'" if "rng_ok R" "valid s" "timed s"
  proof -
    from that(2) have v1: "valid ?s1" by simp
    have t1: "timed ?s1" using that assms(3) by (rule timed_scheduleNextArrival)
    have v3: "valid s3" using v1 g a by (rule valid_wfq_arrive)
    have "timed s3" using that(1) v1 t1 len g a by (rule timed_wfq_arrive)
    with v3 show ?thesis unfolding s' using wfq_startNextTransmission_preserves(4) [OF w3] by simp
  qed
qed

lemma wfq_iteration_preserves:
  assumes "wfq_inv s"
  shows "case wfq_iteration R k s of
           Continue s' \<Rightarrow> wfq_inv s' \<and> (rng_ok R \<longrightarrow> valid s \<longrightarrow> timed s \<longrightarrow> valid s' \<and> timed s')
         | Break s' \<Rightarrow> s' = s \<and> eventQueue s = []
         | Undefined \<Rightarrow> True"
proof (cases "eventQueue s = []")
  case True
  then show ?thesis by (simp add: wfq_iteration_def split: prod.splits)
next
  case False
  obtain ke kd kt where k: "k = (ke, kd, kt)" by (cases k)
  from assms obtain L where w: "wellformed s" and c: "conserved L s" by (auto simp: wfq_inv_def)
  obtain e q where pop: "pq_pop time_ev ke (eventQueue s) = (e, q)"
    by (cases "pq_pop time_ev ke (eventQueue s)")
  from pq_pop_split [OF False pop] obtain xs ys where
    split: "eventQueue s = xs @ e # ys" "q = xs @ ys"
    and least: "\<forall>y \<in> set (eventQueue s). time_ev e \<le> time_ev y" by blast
  let ?s1 = "s\<lparr>eventQueue := xs @ ys, currentTime := time_ev e\<rparr>"
  note wp = wellformed_popped [OF w split(1)]
  have w1: "wellformed ?s1" using w split(1) by (rule wellformed_pop)
  have t1: "timed ?s1" if "valid s" "timed s" using that split(1) least wp(2) by (rule timed_pop)
  show ?thesis
  proof (cases e)
    case (PACKET_ARRIVAL tm' i)
    have c1: "conserved L ?s1" using c split(1) unfolding PACKET_ARRIVAL by (rule conserved_pop_arrival)
    have i: "i < length (sources ?s1)" using wp(1) PACKET_ARRIVAL by simp
    show ?thesis
    proof (cases "wfq_handleArrivalEvent R kd kt i ?s1")
      case None
      then show ?thesis using False pop split(2) wp(2) PACKET_ARRIVAL k
        by (simp add: wfq_iteration_def Let_def)
    next
      case (Some s2)
      note pr = wfq_handleArrivalEvent_preserves [OF w1 c1 i Some]
      have "rng_ok R \<longrightarrow> valid s \<longrightarrow> timed s \<longrightarrow> valid s2 \<and> timed s2"
        using pr(2,3) t1 by simp
      with pr(1) show ?thesis using False pop split(2) wp(2) PACKET_ARRIVAL k Some
        by (simp add: wfq_iteration_def Let_def)
    qed
  next
    case (PACKET_DEPARTURE tm' p)
    have c1: "conserved None (recordDeparture p ?s1)"
      using w c split(1) unfolding PACKET_DEPARTURE by (rule conserved_pop_departure)
    have wr: "wellformed (recordDeparture p ?s1)" using w1 by (rule wellformed_recordDeparture)
    note sn = wfq_startNextTransmission_preserves [OF wr, where k = kt]
    have inv': "wfq_inv (wfq_handleDepartureEvent kt p ?s1)"
      using sn(1) sn(2) [OF c1] by (simp add: wfq_inv_def wfq_handleDepartureEvent_def)
    have tmd: "valid (wfq_handleDepartureEvent kt p ?s1) \<and> timed (wfq_handleDepartureEvent kt p ?s1)"
      if v: "valid s" and tm: "timed s"
    proof -
      from c split(1) have one: "departing xs = []" "departing ys = []"
        unfolding PACKET_DEPARTURE by (auto simp: conserved_def split: if_splits)
      from tm split(1) have p: "0 \<le> size_pkt p"
        unfolding PACKET_DEPARTURE by (auto simp: timed_def)
      have "timed (recordDeparture p ?s1)"
        using t1 [OF v tm] _ p
      proof (rule timed_recordDeparture)
        show "sourceID p < length (stats ?s1)" using wp(1) w PACKET_DEPARTURE
          by (simp add: wellformed_def)
        show "departing (eventQueue ?s1) = []" using one by simp
      qed
      moreover have "valid (recordDeparture p ?s1)" using v by simp
      ultimately show ?thesis using sn(3,4) by (simp add: wfq_handleDepartureEvent_def)
    qed
    show ?thesis using False pop split(2) wp(2) PACKET_DEPARTURE k inv' tmd
      by (simp add: wfq_iteration_def Let_def)
  qed
qed

lemma wfq_loop_invariant:
  assumes step: "\<And>k s. I s \<Longrightarrow>
      (case wfq_iteration R k s of
         Continue s' \<Rightarrow> I s' | Break s' \<Rightarrow> s' = s \<and> eventQueue s = [] | Undefined \<Rightarrow> True)"
    and "I s"
  shows "case wfq_loop R ks s of
           Continue s' \<Rightarrow> I s'
         | Break s' \<Rightarrow> I s' \<and> eventQueue s' = []
         | Undefined \<Rightarrow> True"
  using assms(2)
proof (induction ks arbitrary: s)
  case Nil
  then show ?case by simp
next
  case (Cons k ks)
  show ?case
  proof (cases "wfq_iteration R k s")
    case (Continue s')
    with step [OF Cons.prems, of k] have "I s'" by simp
    from Cons.IH [OF this] show ?thesis by (simp add: Continue)
  next
    case (Break s')
    with step [OF Cons.prems, of k] Cons.prems show ?thesis by simp
  next
    case Undefined
    then show ?thesis by simp
  qed
qed

lemma wfq_iteration_sound:
  assumes "rng_ok R" "wfq_sound s"
  shows "case wfq_iteration R k s of
           Continue s' \<Rightarrow> wfq_sound s'
         | Break s' \<Rightarrow> s' = s \<and> eventQueue s = []
         | Undefined \<Rightarrow> True"
  using wfq_iteration_preserves [of s R k] assms
  by (auto simp: wfq_sound_def split: loop.splits)

lemma wfq_iteration_inv:
  assumes "wfq_inv s"
  shows "case wfq_iteration R k s of
           Continue s' \<Rightarrow> wfq_inv s'
         | Break s' \<Rightarrow> s' = s \<and> eventQueue s = []
         | Undefined \<Rightarrow> True"
  using wfq_iteration_preserves [of s R k] assms
  by (auto split: loop.splits)

lemmas run_defs = fcfs_run_def FCFSSimulator_def prime_def scheduleEvent_def pq_push_def
   fcfs_iteration_def pq_pop_def pq_minima_def fcfs_handleArrivalEvent_def scheduleNextArrival_def scripted_def
   fcfs_generatePacket_def fcfs_admit_def updateStats_def countGenerated_def countDropped_def SourceStats_def
   fcfs_startNextTransmission_def fcfs_handleDepartureEvent_def recordDeparture_def countTransmitted_def Let_def
   fcfs_configured_def Source_def

lemma conserved_books: 
  assumes "conserved L s" "eventQueue s = []"
  shows "books_closed s"
proof (cases "linkBusy s")
  case True
  with assms obtain j where "L = Some j" by (cases L) (auto simp: conserved_def)
  with assms True show ?thesis
    by (auto simp: books_closed_def balanced_but_def balanced_def conserved_def)
next
  case False
  with assms have "L = None" by (simp add: conserved_def)
  with assms False show ?thesis
    by (simp add: books_closed_def balanced_def conserved_def)
qed

lemma fcfs_run_inv:
  assumes "loaded s0"
  shows "case fcfs_run R ks s0 of Continue s \<Rightarrow> fcfs_inv s
      | Break s \<Rightarrow> fcfs_inv s \<and> eventQueue s = [] | Undefined \<Rightarrow> False"
  unfolding fcfs_run_def
proof (rule fcfs_loop_invariant)
  show "fcfs_inv (prime s0)" using loaded_prime(1,2) [OF assms] by (auto simp: fcfs_inv_def)
qed (rule fcfs_iteration_inv)

lemma wfq_run_inv:
  assumes "loaded s0"
  shows "case wfq_run R ks s0 of Continue s \<Rightarrow> wfq_inv s
      | Break s \<Rightarrow> wfq_inv s \<and> eventQueue s = [] | Undefined \<Rightarrow> True"
  unfolding wfq_run_def
proof (rule wfq_loop_invariant)
  show "wfq_inv (prime s0)" using loaded_prime(1,2) [OF assms] by (auto simp: wfq_inv_def)
qed (rule wfq_iteration_inv)

text \<open>
  Claim C1, as stated, fails: a single 200-byte packet arrives at time 0 on a link of
  10 bytes per second with horizon 10. Its departure at time 20 lies beyond the horizon and
  is not scheduled, so the loop ends with one packet generated and none transmitted,
  dropped or buffered.
\<close>

theorem C1_counterexample:
  "fcfs_run scripted [0, 0] lost_in_flight =
     Break (lost_in_flight\<lparr>linkBusy := True, nextPacketId := 2, generator := [],
        stats := [SourceStats\<lparr>packetsGenerated := 1\<rparr>]\<rparr>) \<and>
   \<not> balanced 0 (lost_in_flight\<lparr>linkBusy := True, nextPacketId := 2, generator := [],
        stats := [SourceStats\<lparr>packetsGenerated := 1\<rparr>]\<rparr>)"
  by (simp add: lost_in_flight_def run_defs balanced_def accounted_def from_src_def)

text \<open>
  Claim C1, amended: when the main loop of either simulator has terminated, every source
  satisfies generated = transmitted + dropped + buffered if the link is idle; if the link
  is still busy (the packet in transmission had its departure beyond the horizon), exactly
  one source has one generated packet more than that sum and all others satisfy the
  equation.
\<close>

theorem C1_conservation_at_termination:
  "(loaded s0 \<and> fcfs_run R ks s0 = Break s \<longrightarrow> books_closed s) \<and>
   (loaded w0 \<and> wfq_run R' ks' w0 = Break w \<longrightarrow> books_closed w)"
proof (intro conjI impI)
  assume a: "loaded s0 \<and> fcfs_run R ks s0 = Break s"
  with fcfs_run_inv [of s0 R ks] have "fcfs_inv s" "eventQueue s = []" by simp_all
  then show "books_closed s" by (auto simp: fcfs_inv_def intro: conserved_books)
next
  assume a: "loaded w0 \<and> wfq_run R' ks' w0 = Break w"
  with wfq_run_inv [of w0 R' ks'] have "wfq_inv w" "eventQueue w = []" by simp_all
  then show "books_closed w" by (auto simp: wfq_inv_def intro: conserved_books)
qed

lemmas wfq_run_defs = wfq_run_def WFQSimulator_def prime_def scheduleEvent_def pq_push_def
   wfq_iteration_def pq_pop_def pq_minima_def wfq_handleArrivalEvent_def scheduleNextArrival_def scripted_def
   wfq_generatePacket_def wfq_admit_def updateStats_def countGenerated_def countDropped_def SourceStats_def
   wfq_startNextTransmission_def wfq_handleDepartureEvent_def recordDeparture_def countTransmitted_def Let_def
   wfq_configured_def wfq_Source_def

lemma loadSources_fails:
  "is_error (loadSources mk X T i m ls) \<longleftrightarrow> length ls < m"
proof (induction m arbitrary: i ls)
  case 0
  then show ?case by (simp add: is_error_def)
next
  case (Suc m)
  show ?case
  proof (cases ls)
    case Nil
    then show ?thesis by (simp add: is_error_def)
  next
    case (Cons line rest)
    with Suc [of "Suc i" rest] show ?thesis
      by (auto simp: is_error_def split: prod.splits sum.splits)
  qed
qed

lemma loadConfig_fails:
  "is_error (loadConfig mk X file s) \<longleftrightarrow> load_fails X file"
proof (cases "file")
  case None
  then show ?thesis by (simp add: loadConfig_def load_fails_def is_error_def)
next
  case (Some lines)
  show ?thesis
  proof (cases lines)
    case Nil
    with Some show ?thesis by (simp add: loadConfig_def load_fails_def is_error_def)
  next
    case (Cons line ls)
    obtain n T C B where h: "readHeader X line = (n, T, C, B)" by (cases "readHeader X line")
    show ?thesis
      using loadSources_fails [of mk X T 0 "nat n" ls]
      by (auto simp: Some Cons loadConfig_def load_fails_def h Let_def is_error_def
          split: sum.splits)
  qed
qed

text \<open>
  Claim C6, as stated, fails: a configuration whose only source has \<open>endFrac = 0.2\<close>
  before \<open>startFrac = 0.5\<close> is loaded without error and the simulation runs; a packet
  is generated at time 5 and transmitted.
\<close>

theorem C6_counterexample:
  "fcfs_main table_extractors scripted [0, 0, 0] [] window_reversed =
     Inr (Break
       \<lparr>numSources = 1, simulationTime = 10, linkCapacity = 1000, bufferSize = 5,
          currentTime = 51 / 10, linkBusy = False, nextPacketId = 2,
          sources = [\<lparr>id_src = 0, packetRate = 1, minSize = 100, maxSize = 100, weight = 1,
                      startTime = 5, endTime = 2\<rparr>],
          stats = [\<lparr>packetsGenerated = 1, packetsTransmitted = 1, packetsDropped = 0,
                    bytesTransmitted = 100, totalDelay = 1 / 10\<rparr>],
          packetBuffer = [], eventQueue = [], generator = []\<rparr>)"
  by (simp add: fcfs_main_def fcfs_loadConfig_def loadConfig_def table_extractors_def
      window_reversed_def resize_def run_defs)

text \<open>
  Claim C6, amended: loading fails exactly when the file cannot be opened, has no first
  line, announces a negative number of sources, or has fewer source lines than announced;
  in every other case, whatever the values of the fields, both programs go on to run the
  simulation on the loaded state.
\<close>

theorem C6_load_errors:
  "is_error (fcfs_main X R ks g file) = load_fails X file \<and>
   is_error (wfq_main X R' ks' g' file) = load_fails X file \<and>
   (\<not> load_fails X file \<longrightarrow>
      (\<exists>s w. fcfs_loadConfig X file (FCFSSimulator g) = Inr s \<and>
             fcfs_main X R ks g file = Inr (fcfs_run R ks s) \<and>
             wfq_loadConfig X file (WFQSimulator g') = Inr w \<and>
             wfq_main X R' ks' g' file = Inr (wfq_run R' ks' w)))"
proof -
  have f: "is_error (fcfs_loadConfig X file (FCFSSimulator g)) = load_fails X file"
    unfolding fcfs_loadConfig_def by (rule loadConfig_fails)
  have w: "is_error (wfq_loadConfig X file (WFQSimulator g')) = load_fails X file"
    unfolding wfq_loadConfig_def by (rule loadConfig_fails)
  from f w show ?thesis
    by (auto simp: fcfs_main_def wfq_main_def is_error_def split: sum.splits)
qed

text \<open>
  Witness for C6: the configuration with the reversed window loads in both programs; a
  file that lacks its source line fails.
\<close>

theorem C6_load_errors_witness:
  "\<not> load_fails table_extractors window_reversed \<and>
   \<not> is_error (fcfs_main table_extractors scripted [0] [] window_reversed) \<and>
   \<not> is_error (wfq_main table_extractors scripted [(0, 0, 0)] [] window_reversed) \<and>
   load_fails table_extractors (Some [''1 10 1000 5'']) \<and>
   is_error (fcfs_main table_extractors scripted [0] [] (Some [''1 10 1000 5'']))"
  using C6_load_errors [of table_extractors scripted "[0]" "[]" window_reversed scripted "[(0, 0, 0)]" "[]"]
    C6_load_errors [of table_extractors scripted "[0]" "[]" "Some [''1 10 1000 5'']" scripted "[(0, 0, 0)]" "[]"]
  by (simp add: load_fails_def table_extractors_def window_reversed_def)

lemma systemVirtualTime_scheduleNextArrival [simp]:
  "systemVirtualTime (scheduleNextArrival R i s) = systemVirtualTime s"
  by (simp add: scheduleNextArrival_def Let_def scheduleEvent_def split: prod.splits)

text \<open>
  Claim C4: in the WFQ arrival handler the new packet's virtual finish time is
  \<open>max systemVirtualTime lastFinishTime + size / weight\<close> of its source, the source's
  \<open>lastFinishTime\<close> holds that value in the state handed to the buffer management, and
  the admission decision is taken on that state.
\<close>

theorem C4_virtual_finish_time:
  assumes "i < length (sources s)"
    and "wfq_generatePacket R i (scheduleNextArrival R i s) = (p, s')"
  shows "virtualFinishTime p =
           max (systemVirtualTime s) (lastFinishTime (sources s ! i))
             + real_of_int (size_pkt p) / weight (sources s ! i) \<and>
         lastFinishTime (sources s' ! i) = virtualFinishTime p \<and>
         wfq_handleArrivalEvent R kd kt i s =
           map_option (wfq_startNextTransmission kt) (wfq_admit kd p s')"
proof -
  note g = wfq_generatePacket_fields [OF assms(2)]
  have "lastFinishTime (sources s' ! i) = virtualFinishTime p"
    using assms(1) by (simp add: g(6))
  moreover have "wfq_handleArrivalEvent R kd kt i s =
      map_option (wfq_startNextTransmission kt) (wfq_admit kd p s')"
    using assms(2) by (simp add: wfq_handleArrivalEvent_def)
  ultimately show ?thesis using g(4) by simp
qed

text \<open>
  Witness for C4: the second arrival of source 0 in the two-source run, with
  \<open>lastFinishTime = 100\<close> and a packet of 10 bytes.
\<close>

theorem C4_virtual_finish_time_witness:
  "(0::nat) < length (sources second_arrival) \<and>
   virtualFinishTime (fst (wfq_generatePacket scripted 0 (scheduleNextArrival scripted 0 second_arrival)))
     = max 0 100 + 10 / 1 \<and>
   lastFinishTime (sources (snd (wfq_generatePacket scripted 0
      (scheduleNextArrival scripted 0 second_arrival))) ! 0) = 110"
  using C4_virtual_finish_time [of 0 second_arrival scripted
      "fst (wfq_generatePacket scripted 0 (scheduleNextArrival scripted 0 second_arrival))"
      "snd (wfq_generatePacket scripted 0 (scheduleNextArrival scripted 0 second_arrival))"]
  by (simp add: second_arrival_def two_flows_def wfq_run_defs)

text \<open>
  Witness for C1: the run above ends with the link busy and source 0 one packet short; a
  WFQ run of two sources ends with the link idle and the books balanced.
\<close>

theorem C1_conservation_at_termination_witness:
  "loaded lost_in_flight \<and>
   fcfs_run scripted [0, 0] lost_in_flight =
     Break (lost_in_flight\<lparr>linkBusy := True, nextPacketId := 2, generator := [],
        stats := [SourceStats\<lparr>packetsGenerated := 1\<rparr>]\<rparr>) \<and>
   books_closed (lost_in_flight\<lparr>linkBusy := True, nextPacketId := 2, generator := [],
        stats := [SourceStats\<lparr>packetsGenerated := 1\<rparr>]\<rparr>) \<and>
   loaded (two_flows 5 200) \<and>
   books_closed (the (the_state (wfq_run scripted (replicate 7 (0, 0, 0)) (two_flows 5 200))))"
proof -
  have l1: "loaded lost_in_flight"
    by (simp add: loaded_def lost_in_flight_def fcfs_configured_def FCFSSimulator_def Source_def)
  have r1: "fcfs_run scripted [0, 0] lost_in_flight =
     Break (lost_in_flight\<lparr>linkBusy := True, nextPacketId := 2, generator := [],
        stats := [SourceStats\<lparr>packetsGenerated := 1\<rparr>]\<rparr>)"
    by (simp add: lost_in_flight_def run_defs)
  have l2: "loaded (two_flows 5 200)"
    by (simp add: loaded_def two_flows_def wfq_configured_def WFQSimulator_def wfq_Source_def
        less_Suc_eq)
  have r2: "wfq_run scripted (replicate 7 (0, 0, 0)) (two_flows 5 200) =
     Break (the (the_state (wfq_run scripted (replicate 7 (0, 0, 0)) (two_flows 5 200))))"
    by (simp add: two_flows_def wfq_run_defs numeral_eq_Suc)
  from C1_conservation_at_termination [of lost_in_flight scripted "[0, 0]" _ "two_flows 5 200"
      scripted "replicate 7 (0, 0, 0)"] l1 r1 l2 r2
  show ?thesis by simp
qed

text \<open>
  Claim C5 fails on the code: with \<open>bufferSize = 0\<close> the first WFQ arrival finds
  \<open>size() < bufferSize\<close> false and reads the top of the empty buffer.
\<close>

theorem C5_wfq_zero_buffer:
  "wfq_run scripted [(0, 0, 0)] (wfq_configured 10 1000 0 [wfq_Source 0 1 100 100 1 0 1] [])
     = Undefined"
  by (simp add: wfq_run_defs)

lemma config_scheduleNextArrival [simp]: "config (scheduleNextArrival R i s) = config s"
  by (simp add: config_def scheduleNextArrival_def Let_def scheduleEvent_def split: prod.splits)

lemma config_fcfs_startNextTransmission [simp]: "config (fcfs_startNextTransmission s) = config s"
  by (simp add: config_def fcfs_startNextTransmission_def Let_def scheduleEvent_def)

lemma config_wfq_startNextTransmission [simp]: "config (wfq_startNextTransmission k s) = config s"
  by (simp add: config_def wfq_startNextTransmission_def Let_def scheduleEvent_def split: prod.splits)

lemma config_recordDeparture [simp]: "config (recordDeparture p s) = config s"
  by (simp add: config_def recordDeparture_def Let_def updateStats_def)

lemma config_fcfs_handleArrivalEvent [simp]: "config (fcfs_handleArrivalEvent R i s) = config s"
proof -
  have "config (fcfs_admit p (snd (fcfs_generatePacket R i s'))) = config s'" for p s'
    by (simp add: config_def fcfs_admit_def fcfs_generatePacket_def updateStats_def Let_def
        split: prod.splits)
  then show ?thesis
    by (simp add: fcfs_handleArrivalEvent_def Let_def split: prod.splits)
       (metis config_scheduleNextArrival snd_conv)
qed


lemma config_prime [simp]: "config (prime s) = config s"
proof -
  have "config (foldl (\<lambda>s' src. scheduleEvent (PACKET_ARRIVAL (startTime src) (id_src src)) s') s srcs)
      = config s" for srcs
    by (induction srcs arbitrary: s) (simp_all add: config_def scheduleEvent_def)
  then show ?thesis by (simp add: prime_def)
qed








lemma transmittedOf_same:
  assumes "\<And>st. packetsTransmitted (f st) = packetsTransmitted st"
  shows "transmittedOf (updateStats j f s) = transmittedOf s"
proof (cases "j < length (stats s)")
  case True
  then have "(map packetsTransmitted (stats s))[j := packetsTransmitted (stats s ! j)]
      = map packetsTransmitted (stats s)"
    by (simp add: list_update_same_conv)
  then show ?thesis by (simp add: transmittedOf_def updateStats_def map_update assms)
next
  case False
  then show ?thesis by (simp add: transmittedOf_def updateStats_def list_update_beyond)
qed

lemma nothing_sent_scheduleNextArrival:
  "stuck s \<Longrightarrow> nothing_sent s (scheduleNextArrival R i s)"
  by (auto simp: nothing_sent_def stuck_def transmittedOf_def bytesOf_def scheduleNextArrival_def
      Let_def scheduleEvent_def pq_push_def split: prod.splits)

lemma packetBuffer_scheduleNextArrival [simp]:
  "packetBuffer (scheduleNextArrival R i s) = packetBuffer s"
  by (simp add: scheduleNextArrival_def Let_def scheduleEvent_def split: prod.splits)

lemma nothing_sent_trans:
  "nothing_sent s s' \<Longrightarrow> nothing_sent s' s'' \<Longrightarrow> nothing_sent s s''"
  by (simp add: nothing_sent_def)

lemma nothing_sent_fcfs_arrive:
  assumes "stuck s" "fcfs_generatePacket R i s = (p, s')"
  shows "nothing_sent s (fcfs_admit p s')"
    and "\<exists>more. packetBuffer (fcfs_admit p s') = packetBuffer s @ more"
proof -
  note f = fcfs_arrive_fields [OF assms(2)]
  have t1: "transmittedOf s' = transmittedOf s"
    using assms(2) transmittedOf_same [of countGenerated i]
    by (auto simp: fcfs_generatePacket_def Let_def countGenerated_def split: prod.splits)
       (simp add: transmittedOf_def updateStats_def)
  have "transmittedOf (fcfs_admit p s') = transmittedOf s'"
    using transmittedOf_same [of countDropped "sourceID p" s']
    by (simp add: fcfs_admit_def countDropped_def) (simp add: transmittedOf_def)
  with t1 assms(1) show "nothing_sent s (fcfs_admit p s')"
    by (simp add: nothing_sent_def stuck_def f)
  show "\<exists>more. packetBuffer (fcfs_admit p s') = packetBuffer s @ more"
    using assms(2)
    by (auto simp: fcfs_generatePacket_def fcfs_admit_def updateStats_def Let_def
        split: prod.splits)
qed

lemma fcfs_stuck_iteration:
  assumes "wellformed s" "conserved L s" "stuck s"
  shows "case fcfs_iteration R k s of
           Continue s' \<Rightarrow> wellformed s' \<and> conserved L s' \<and> nothing_sent s s' \<and>
             (\<exists>more. packetBuffer s' = packetBuffer s @ more)
         | Break s' \<Rightarrow> s' = s
         | Undefined \<Rightarrow> False"
proof (cases "eventQueue s = []")
  case True
  then show ?thesis by (simp add: fcfs_iteration_def)
next
  case False
  obtain e q where pop: "pq_pop time_ev k (eventQueue s) = (e, q)"
    by (cases "pq_pop time_ev k (eventQueue s)")
  from pq_pop_split [OF False pop] obtain xs ys where
    split: "eventQueue s = xs @ e # ys" "q = xs @ ys" by blast
  from assms(3) split(1) obtain tm i where e: "e = PACKET_ARRIVAL tm i"
    by (cases e) (auto simp: stuck_def)
  let ?s1 = "s\<lparr>eventQueue := xs @ ys, currentTime := tm\<rparr>"
  let ?s2 = "scheduleNextArrival R i ?s1"
  obtain p s3 where g: "fcfs_generatePacket R i ?s2 = (p, s3)"
    by (cases "fcfs_generatePacket R i ?s2")
  note wp = wellformed_popped [OF assms(1) split(1)]
  have i: "i < length (sources ?s1)" using wp(1) e by simp
  have w1: "wellformed ?s1" using assms(1) split(1) by (rule wellformed_pop)
  have c1: "conserved L ?s1" using assms(2) split(1) unfolding e by (rule conserved_pop_arrival)
  have n1: "nothing_sent s ?s1"
    using assms(3) split(1) [unfolded e]
    by (simp add: nothing_sent_def stuck_def transmittedOf_def bytesOf_def)
  then have st1: "stuck ?s1" by (simp add: nothing_sent_def)
  have w2: "wellformed ?s2" using w1 i by (rule wellformed_scheduleNextArrival)
  have c2: "conserved L ?s2" using c1 by (rule conserved_scheduleNextArrival)
  have n2: "nothing_sent ?s1 ?s2" using st1 by (rule nothing_sent_scheduleNextArrival)
  then have st2: "stuck ?s2" by (simp add: nothing_sent_def)
  have i2: "i < length (sources ?s2)" using i by simp
  let ?s4 = "fcfs_admit p s3"
  have w4: "wellformed ?s4" using w2 i2 g by (rule wellformed_fcfs_arrive)
  have c4: "conserved L ?s4" using w2 c2 i2 g by (rule conserved_fcfs_arrive)
  note n4 = nothing_sent_fcfs_arrive [OF st2 g]
  have ns: "nothing_sent s ?s4"
    using n1 n2 n4(1) by (blast intro: nothing_sent_trans)
  then have busy: "linkBusy ?s4" by (simp add: nothing_sent_def stuck_def)
  have h: "fcfs_handleArrivalEvent R i ?s1 = ?s4"
    using g busy by (simp add: fcfs_handleArrivalEvent_def fcfs_startNextTransmission_idle)
  have step: "fcfs_iteration R k s = Continue ?s4"
    using False pop split(2) wp(2) e h by (simp add: fcfs_iteration_def Let_def)
  from n4(2) have "\<exists>more. packetBuffer ?s4 = packetBuffer s @ more" by simp
  with w4 c4 ns show ?thesis by (simp add: step)
qed

lemma fcfs_stuck_loop:
  assumes "wellformed s" "conserved L s" "stuck s" "the_state (fcfs_loop R ks s) = Some s'"
  shows "conserved L s' \<and> nothing_sent s s' \<and> (\<exists>more. packetBuffer s' = packetBuffer s @ more)"
  using assms
proof (induction ks arbitrary: s)
  case Nil
  then show ?case by (simp add: nothing_sent_def)
next
  case (Cons k ks)
  note it = fcfs_stuck_iteration [OF Cons.prems(1-3), of R k]
  show ?case
  proof (cases "fcfs_iteration R k s")
    case (Continue s1)
    with it have s1: "wellformed s1" "conserved L s1" "nothing_sent s s1"
      and b1: "\<exists>more. packetBuffer s1 = packetBuffer s @ more" by simp_all
    from s1(3) have "stuck s1" by (simp add: nothing_sent_def)
    with Cons.IH [OF s1(1,2)] Cons.prems(4) Continue
    have r: "conserved L s'" "nothing_sent s1 s'" "\<exists>more. packetBuffer s' = packetBuffer s1 @ more"
      by simp_all
    from b1 r(3) have "\<exists>more. packetBuffer s' = packetBuffer s @ more" by auto
    with r(1,2) s1(3) show ?thesis by (blast intro: nothing_sent_trans)
  next
    case (Break s1)
    with it Cons.prems show ?thesis by (simp add: nothing_sent_def)
  next
    case Undefined
    with it show ?thesis by simp
  qed
qed

lemma conserved_one_uncounted:
  "conserved (Some j) s \<Longrightarrow> departing (eventQueue s) = [] \<Longrightarrow> one_uncounted j s"
  by (auto simp: conserved_def one_uncounted_def)

lemma fcfs_cut:
  assumes "conserved L s" "\<not> linkBusy s" "packetBuffer s = p # ps" "sourceID p < length (sources s)"
    "simulationTime s < currentTime s + real_of_int (size_pkt p) / linkCapacity s"
  shows "fcfs_startNextTransmission s = s\<lparr>linkBusy := True, packetBuffer := ps\<rparr>"
    and "conserved (Some (sourceID p)) (fcfs_startNextTransmission s)"
    and "stuck (fcfs_startNextTransmission s)"
proof -
  show eq: "fcfs_startNextTransmission s = s\<lparr>linkBusy := True, packetBuffer := ps\<rparr>"
    using assms(2,3,5) by (simp add: fcfs_startNextTransmission_def Let_def scheduleEvent_def)
  from assms(1,2) have i0: "departing (eventQueue s) = []" "L = None"
    by (auto simp: conserved_def)
  show "conserved (Some (sourceID p)) (fcfs_startNextTransmission s)"
    unfolding eq using assms(1,3,4) i0 by (auto simp: conserved_def accounted_def)
  show "stuck (fcfs_startNextTransmission s)"
    unfolding eq using i0 by (simp add: stuck_def)
qed

lemma nothing_sent_wfq_arrive:
  assumes "stuck s" "wfq_generatePacket R i s = (p, s')" "wfq_admit k p s' = Some s''"
  shows "nothing_sent s s''" and "systemVirtualTime s'' = systemVirtualTime s"
proof -
  note g = wfq_generatePacket_fields [OF assms(2)]
  have t1: "transmittedOf s' = transmittedOf s" "bytesOf s' = bytesOf s"
    using transmittedOf_same [of countGenerated i s] bytesOf_same [of countGenerated i s]
    by (simp_all add: transmittedOf_def bytesOf_def g(5) countGenerated_def updateStats_def)
  from assms(3)
  have "nothing_sent s s'' \<and> systemVirtualTime s'' = systemVirtualTime s"
  proof (cases rule: wfq_admit_cases)
    case room
    with assms(1) t1 show ?thesis
      by (simp add: nothing_sent_def stuck_def transmittedOf_def bytesOf_def g)
  next
    case (full xs d ys)
    have "transmittedOf s'' = transmittedOf s'" "bytesOf s'' = bytesOf s'"
      using transmittedOf_same [of countDropped "sourceID d" s']
        bytesOf_same [of countDropped "sourceID d" s']
      by (simp_all add: full(4) transmittedOf_def bytesOf_def countDropped_def updateStats_def)
    with assms(1) t1 show ?thesis
      by (simp add: nothing_sent_def stuck_def full(4) g updateStats_def)
  qed
  then show "nothing_sent s s''" "systemVirtualTime s'' = systemVirtualTime s" by simp_all
qed

lemma wfq_stuck_iteration:
  assumes "wellformed s" "conserved L s" "stuck s"
  shows "case wfq_iteration R k s of
           Continue s' \<Rightarrow> wellformed s' \<and> conserved L s' \<and> nothing_sent s s' \<and>
             systemVirtualTime s' = systemVirtualTime s
         | Break s' \<Rightarrow> s' = s
         | Undefined \<Rightarrow> True"
proof (cases "eventQueue s = []")
  case True
  then show ?thesis by (simp add: wfq_iteration_def split: prod.splits)
next
  case False
  obtain ke kd kt where k: "k = (ke, kd, kt)" by (cases k)
  obtain e q where pop: "pq_pop time_ev ke (eventQueue s) = (e, q)"
    by (cases "pq_pop time_ev ke (eventQueue s)")
  from pq_pop_split [OF False pop] obtain xs ys where
    split: "eventQueue s = xs @ e # ys" "q = xs @ ys" by blast
  from assms(3) split(1) obtain tm i where e: "e = PACKET_ARRIVAL tm i"
    by (cases e) (auto simp: stuck_def)
  let ?s1 = "s\<lparr>eventQueue := xs @ ys, currentTime := tm\<rparr>"
  let ?s2 = "scheduleNextArrival R i ?s1"
  obtain p s3 where g: "wfq_generatePacket R i ?s2 = (p, s3)"
    by (cases "wfq_generatePacket R i ?s2")
  note wp = wellformed_popped [OF assms(1) split(1)]
  show ?thesis
  proof (cases "wfq_admit kd p s3")
    case None
    then have "wfq_handleArrivalEvent R kd kt i ?s1 = None"
      using g by (simp add: wfq_handleArrivalEvent_def)
    then show ?thesis
      using False pop split(2) wp(2) e k by (simp add: wfq_iteration_def Let_def)
  next
    case (Some s4)
    have i: "i < length (sources ?s1)" using wp(1) e by simp
    have w1: "wellformed ?s1" using assms(1) split(1) by (rule wellformed_pop)
    have c1: "conserved L ?s1" using assms(2) split(1) unfolding e by (rule conserved_pop_arrival)
    have n1: "nothing_sent s ?s1"
      using assms(3) split(1) [unfolded e]
      by (simp add: nothing_sent_def stuck_def transmittedOf_def bytesOf_def)
    then have st1: "stuck ?s1" by (simp add: nothing_sent_def)
    have w2: "wellformed ?s2" using w1 i by (rule wellformed_scheduleNextArrival)
    have c2: "conserved L ?s2" using c1 by (rule conserved_scheduleNextArrival)
    have n2: "nothing_sent ?s1 ?s2" using st1 by (rule nothing_sent_scheduleNextArrival)
    then have st2: "stuck ?s2" by (simp add: nothing_sent_def)
    have i2: "i < length (sources ?s2)" using i by simp
    have w4: "wellformed s4" using w2 i2 g Some by (rule wellformed_wfq_arrive)
    have c4: "conserved L s4" using w2 c2 i2 g Some by (rule conserved_wfq_arrive)
    note n4 = nothing_sent_wfq_arrive [OF st2 g Some]
    have ns: "nothing_sent s s4"
      using n1 n2 n4(1) by (blast intro: nothing_sent_trans)
    then have busy: "linkBusy s4" by (simp add: nothing_sent_def stuck_def)
    have h: "wfq_handleArrivalEvent R kd kt i ?s1 = Some s4"
      using g Some busy by (simp add: wfq_handleArrivalEvent_def wfq_startNextTransmission_idle)
    have step: "wfq_iteration R k s = Continue s4"
      using False pop split(2) wp(2) e h k by (simp add: wfq_iteration_def Let_def)
    from n4(2) have "systemVirtualTime s4 = systemVirtualTime s" by simp
    with w4 c4 ns show ?thesis by (simp add: step)
  qed
qed

lemma wfq_stuck_loop:
  assumes "wellformed s" "conserved L s" "stuck s" "the_state (wfq_loop R ks s) = Some s'"
  shows "conserved L s' \<and> nothing_sent s s' \<and> systemVirtualTime s' = systemVirtualTime s"
  using assms
proof (induction ks arbitrary: s)
  case Nil
  then show ?case by (simp add: nothing_sent_def)
next
  case (Cons k ks)
  note it = wfq_stuck_iteration [OF Cons.prems(1-3), of R k]
  show ?case
  proof (cases "wfq_iteration R k s")
    case (Continue s1)
    with it have s1: "wellformed s1" "conserved L s1" "nothing_sent s s1"
      and v1: "systemVirtualTime s1 = systemVirtualTime s" by simp_all
    from s1(3) have "stuck s1" by (simp add: nothing_sent_def)
    with Cons.IH [OF s1(1,2)] Cons.prems(4) Continue
    have r: "conserved L s'" "nothing_sent s1 s'" "systemVirtualTime s' = systemVirtualTime s1"
      by simp_all
    with s1(3) v1 show ?thesis by (auto intro: nothing_sent_trans)
  next
    case (Break s1)
    with it Cons.prems show ?thesis by (simp add: nothing_sent_def)
  next
    case Undefined
    with Cons.prems show ?thesis by simp
  qed
qed

lemma wfq_cut:
  assumes "wellformed s" "conserved L s" "\<not> linkBusy s" "packetBuffer s \<noteq> []"
    "pq_pop virtualFinishTime k (packetBuffer s) = (p, b)"
    "simulationTime s < currentTime s + real_of_int (size_pkt p) / linkCapacity s"
  shows "wfq_startNextTransmission k s = s\<lparr>linkBusy := True, packetBuffer := b,
      systemVirtualTime := virtualFinishTime p - real_of_int (size_pkt p) / weight_pkt p\<rparr>"
    and "wellformed (wfq_startNextTransmission k s)"
    and "conserved (Some (sourceID p)) (wfq_startNextTransmission k s)"
    and "stuck (wfq_startNextTransmission k s)"
proof -
  show eq: "wfq_startNextTransmission k s = s\<lparr>linkBusy := True, packetBuffer := b,
      systemVirtualTime := virtualFinishTime p - real_of_int (size_pkt p) / weight_pkt p\<rparr>"
    using assms(3-6) by (simp add: wfq_startNextTransmission_def Let_def scheduleEvent_def)
  from pq_pop_split [OF assms(4,5)] obtain xs ys where
    sp: "packetBuffer s = xs @ p # ys" "b = xs @ ys" by blast
  from assms(1) sp(1) have p: "sourceID p < length (sources s)" by (simp add: wellformed_def)
  from assms(2,3) have i0: "departing (eventQueue s) = []" "L = None"
    by (auto simp: conserved_def)
  show "wellformed (wfq_startNextTransmission k s)"
    using assms(1) by (rule wfq_startNextTransmission_preserves(1))
  show "conserved (Some (sourceID p)) (wfq_startNextTransmission k s)"
    unfolding eq using assms(2) sp p i0 by (auto simp: conserved_def accounted_def)
  show "stuck (wfq_startNextTransmission k s)"
    unfolding eq using i0 by (simp add: stuck_def)
qed

text \<open>
  Claim C10: when \<^verbatim>\<open>startNextTransmission\<close> of either simulator takes a packet whose
  departure time \<open>currentTime + size / linkCapacity\<close> exceeds the horizon, the event queue is
  left as it was and only \<open>linkBusy\<close> and the buffer change. In every state the loop
  reaches afterwards the link is still busy, no departure is pending, the transmitted
  counts and bytes are what they were, nothing has left the FCFS buffer (in WFQ the system
  virtual time, which only a transmission start writes, is unchanged), and the source of
  that packet has exactly one generated packet that is neither transmitted nor dropped nor
  buffered. The hypotheses on the state before the call are the invariants of a run.
\<close>

theorem C10_departure_past_horizon:
  "(wellformed s \<and> conserved L s \<and> \<not> linkBusy s \<and> packetBuffer s = p # ps \<and>
    simulationTime s < currentTime s + real_of_int (size_pkt p) / linkCapacity s \<and>
    the_state (fcfs_loop R ks (fcfs_startNextTransmission s)) = Some s'
    \<longrightarrow> fcfs_startNextTransmission s = s\<lparr>linkBusy := True, packetBuffer := ps\<rparr> \<and>
        linkBusy s' \<and> departing (eventQueue s') = [] \<and>
        transmittedOf s' = transmittedOf s \<and> bytesOf s' = bytesOf s \<and>
        (\<exists>more. packetBuffer s' = ps @ more) \<and> one_uncounted (sourceID p) s') \<and>
   (wellformed w \<and> conserved L' w \<and> \<not> linkBusy w \<and> packetBuffer w \<noteq> [] \<and>
    pq_pop virtualFinishTime k (packetBuffer w) = (q, b) \<and>
    simulationTime w < currentTime w + real_of_int (size_pkt q) / linkCapacity w \<and>
    the_state (wfq_loop R' ks' (wfq_startNextTransmission k w)) = Some w'
    \<longrightarrow> wfq_startNextTransmission k w = w\<lparr>linkBusy := True, packetBuffer := b,
          systemVirtualTime := virtualFinishTime q - real_of_int (size_pkt q) / weight_pkt q\<rparr> \<and>
        linkBusy w' \<and> departing (eventQueue w') = [] \<and>
        transmittedOf w' = transmittedOf w \<and> bytesOf w' = bytesOf w \<and>
        systemVirtualTime w' = systemVirtualTime (wfq_startNextTransmission k w) \<and>
        one_uncounted (sourceID q) w')"
proof (intro conjI impI)
  assume a: "wellformed s \<and> conserved L s \<and> \<not> linkBusy s \<and> packetBuffer s = p # ps \<and>
    simulationTime s < currentTime s + real_of_int (size_pkt p) / linkCapacity s \<and>
    the_state (fcfs_loop R ks (fcfs_startNextTransmission s)) = Some s'"
  let ?t = "fcfs_startNextTransmission s"
  from a have p: "sourceID p < length (sources s)" by (simp add: wellformed_def)
  from a have h: "conserved L s" "\<not> linkBusy s" "packetBuffer s = p # ps"
    "simulationTime s < currentTime s + real_of_int (size_pkt p) / linkCapacity s"
    by simp_all
  note cut = fcfs_cut [OF h(1-3) p h(4)]
  from a have wt: "wellformed ?t" by (simp add: wellformed_fcfs_startNextTransmission)
  from a have run: "the_state (fcfs_loop R ks ?t) = Some s'" by simp
  from fcfs_stuck_loop [OF wt cut(2,3) run]
  have r: "conserved (Some (sourceID p)) s'" "nothing_sent ?t s'"
    "\<exists>more. packetBuffer s' = packetBuffer ?t @ more" by simp_all
  show "fcfs_startNextTransmission s = s\<lparr>linkBusy := True, packetBuffer := ps\<rparr>" by (rule cut(1))
  from r(2) show "linkBusy s'" "departing (eventQueue s') = []"
    by (simp_all add: nothing_sent_def stuck_def)
  from r(2) show "transmittedOf s' = transmittedOf s" "bytesOf s' = bytesOf s"
    by (simp_all add: nothing_sent_def cut(1) transmittedOf_def bytesOf_def)
  from r(3) show "\<exists>more. packetBuffer s' = ps @ more" by (simp add: cut(1))
  from r(1,2) show "one_uncounted (sourceID p) s'"
    by (simp add: conserved_one_uncounted nothing_sent_def stuck_def)
next
  assume a: "wellformed w \<and> conserved L' w \<and> \<not> linkBusy w \<and> packetBuffer w \<noteq> [] \<and>
    pq_pop virtualFinishTime k (packetBuffer w) = (q, b) \<and>
    simulationTime w < currentTime w + real_of_int (size_pkt q) / linkCapacity w \<and>
    the_state (wfq_loop R' ks' (wfq_startNextTransmission k w)) = Some w'"
  let ?t = "wfq_startNextTransmission k w"
  from a have h: "wellformed w" "conserved L' w" "\<not> linkBusy w" "packetBuffer w \<noteq> []"
    "pq_pop virtualFinishTime k (packetBuffer w) = (q, b)"
    "simulationTime w < currentTime w + real_of_int (size_pkt q) / linkCapacity w"
    by simp_all
  note cut = wfq_cut [OF h]
  from a have run: "the_state (wfq_loop R' ks' ?t) = Some w'" by simp
  from wfq_stuck_loop [OF cut(2,3,4) run]
  have r: "conserved (Some (sourceID q)) w'" "nothing_sent ?t w'"
    "systemVirtualTime w' = systemVirtualTime ?t" by simp_all
  show "?t = w\<lparr>linkBusy := True, packetBuffer := b,
      systemVirtualTime := virtualFinishTime q - real_of_int (size_pkt q) / weight_pkt q\<rparr>"
    by (rule cut(1))
  from r(2) show "linkBusy w'" "departing (eventQueue w') = []"
    by (simp_all add: nothing_sent_def stuck_def)
  from r(2) show "transmittedOf w' = transmittedOf w" "bytesOf w' = bytesOf w"
    by (simp_all add: nothing_sent_def cut(1) transmittedOf_def bytesOf_def)
  from r(3) show "systemVirtualTime w' = systemVirtualTime ?t" .
  from r(1,2) show "one_uncounted (sourceID q) w'"
    by (simp add: conserved_one_uncounted nothing_sent_def stuck_def)
qed

text \<open>
  Witness for C10: a 200-byte packet is about to start at time 0 on a link of 10 bytes per
  second with horizon 10, and another arrival is pending at time 5.
\<close>

theorem C10_departure_past_horizon_witness:
  "wellformed horizon_cut \<and> conserved None horizon_cut \<and> \<not> linkBusy horizon_cut \<and>
   simulationTime horizon_cut < currentTime horizon_cut + 200 / linkCapacity horizon_cut \<and>
   linkBusy (the (the_state (fcfs_loop scripted [0, 0] (fcfs_startNextTransmission horizon_cut)))) \<and>
   one_uncounted 0 (the (the_state (fcfs_loop scripted [0, 0] (fcfs_startNextTransmission horizon_cut)))) \<and>
   packetsGenerated (stats (the (the_state
      (fcfs_loop scripted [0, 0] (fcfs_startNextTransmission horizon_cut)))) ! 0) = 2 \<and>
   wellformed wfq_horizon_cut \<and> conserved None wfq_horizon_cut \<and> \<not> linkBusy wfq_horizon_cut \<and>
   linkBusy (the (the_state
      (wfq_loop scripted [(0, 0, 0), (0, 0, 0)] (wfq_startNextTransmission 0 wfq_horizon_cut)))) \<and>
   one_uncounted 0 (the (the_state
      (wfq_loop scripted [(0, 0, 0), (0, 0, 0)] (wfq_startNextTransmission 0 wfq_horizon_cut))))"
proof -
  let ?p = "\<lparr>id_pkt = 1, sourceID = 0, size_pkt = 200, arrivalTime = 0\<rparr>"
  let ?q = "\<lparr>id_pkt = 1, sourceID = 0, size_pkt = 200, arrivalTime = 0,
          weight_pkt = 1, virtualFinishTime = 200\<rparr>"
  let ?s' = "the (the_state (fcfs_loop scripted [0, 0] (fcfs_startNextTransmission horizon_cut)))"
  let ?w' = "the (the_state
      (wfq_loop scripted [(0, 0, 0), (0, 0, 0)] (wfq_startNextTransmission 0 wfq_horizon_cut)))"
  have f: "wellformed horizon_cut" "conserved None horizon_cut" "\<not> linkBusy horizon_cut"
    "packetBuffer horizon_cut = [?p]"
    "simulationTime horizon_cut < currentTime horizon_cut + 200 / linkCapacity horizon_cut"
    by (simp_all add: horizon_cut_def lost_in_flight_def fcfs_configured_def FCFSSimulator_def
        Source_def wellformed_def conserved_def accounted_def SourceStats_def)
  have fr: "the_state (fcfs_loop scripted [0, 0] (fcfs_startNextTransmission horizon_cut)) = Some ?s'"
    "packetsGenerated (stats ?s' ! 0) = 2"
    by (simp_all add: horizon_cut_def lost_in_flight_def run_defs)
  have w: "wellformed wfq_horizon_cut" "conserved None wfq_horizon_cut" "\<not> linkBusy wfq_horizon_cut"
    "packetBuffer wfq_horizon_cut \<noteq> []"
    "pq_pop virtualFinishTime 0 (packetBuffer wfq_horizon_cut) = (?q, [])"
    "simulationTime wfq_horizon_cut
       < currentTime wfq_horizon_cut + 200 / linkCapacity wfq_horizon_cut"
    by (simp_all add: wfq_horizon_cut_def wfq_configured_def WFQSimulator_def
        wfq_Source_def wellformed_def conserved_def accounted_def SourceStats_def
        pq_pop_def pq_minima_def)
  have wr: "the_state (wfq_loop scripted [(0, 0, 0), (0, 0, 0)]
      (wfq_startNextTransmission 0 wfq_horizon_cut)) = Some ?w'"
    by (simp add: wfq_horizon_cut_def wfq_run_defs)
  have pf: "wellformed horizon_cut \<and> conserved None horizon_cut \<and> \<not> linkBusy horizon_cut \<and>
      packetBuffer horizon_cut = ?p # [] \<and>
      simulationTime horizon_cut
        < currentTime horizon_cut + real_of_int (size_pkt ?p) / linkCapacity horizon_cut \<and>
      the_state (fcfs_loop scripted [0, 0] (fcfs_startNextTransmission horizon_cut)) = Some ?s'"
    using f fr(1) by (simp del: fcfs_loop.simps)
  have pw: "wellformed wfq_horizon_cut \<and> conserved None wfq_horizon_cut \<and>
      \<not> linkBusy wfq_horizon_cut \<and> packetBuffer wfq_horizon_cut \<noteq> [] \<and>
      pq_pop virtualFinishTime 0 (packetBuffer wfq_horizon_cut) = (?q, []) \<and>
      simulationTime wfq_horizon_cut
        < currentTime wfq_horizon_cut + real_of_int (size_pkt ?q) / linkCapacity wfq_horizon_cut \<and>
      the_state (wfq_loop scripted [(0, 0, 0), (0, 0, 0)]
        (wfq_startNextTransmission 0 wfq_horizon_cut)) = Some ?w'"
    using w wr by (simp del: wfq_loop.simps)
  note th = C10_departure_past_horizon [of horizon_cut None ?p "[]" scripted "[0, 0]" ?s'
      wfq_horizon_cut None 0 ?q "[]" scripted "[(0, 0, 0), (0, 0, 0)]" ?w']
  from th pf have cf: "linkBusy ?s'" "one_uncounted (sourceID ?p) ?s'" by blast+
  from th pw have cw: "linkBusy ?w'" "one_uncounted (sourceID ?q) ?w'" by blast+
  from cf(2) have "one_uncounted 0 ?s'" by (simp del: fcfs_loop.simps)
  moreover from cw(2) have "one_uncounted 0 ?w'" by (simp del: wfq_loop.simps)
  ultimately show ?thesis using cf(1) cw(1) f fr(2) w by blast
qed


lemma busy_or_empty_fcfs:
  "linkBusy (fcfs_startNextTransmission s) \<or> packetBuffer (fcfs_startNextTransmission s) = []"
  by (simp add: fcfs_startNextTransmission_def Let_def scheduleEvent_def)

lemma busy_or_empty_wfq:
  "linkBusy (wfq_startNextTransmission k s) \<or> packetBuffer (wfq_startNextTransmission k s) = []"
  by (simp add: wfq_startNextTransmission_def Let_def scheduleEvent_def split: prod.splits)

lemma wfq_iteration_busy_or_empty:
  "wfq_iteration R k s = Continue s' \<Longrightarrow> linkBusy s' \<or> packetBuffer s' = []"
  by (auto simp: wfq_iteration_def Let_def wfq_handleArrivalEvent_def wfq_handleDepartureEvent_def
      split: prod.splits if_splits event.splits option.splits)
     (metis busy_or_empty_wfq)+

text \<open>
  Claim C3, as stated, fails in its last part: with \<open>bufferSize = 1\<close> the buffer holds
  packet 2 with virtual finish time 110 when packet 3 arrives with virtual finish time 20,
  the smallest among the two candidates. After the arrival the buffer holds packet 3, and the
  drop is counted for source 0, the source of packet 2.
\<close>

theorem C3_counterexample:
  "map virtualFinishTime (packetBuffer (the (the_state
      (wfq_run scripted (replicate 2 (0, 0, 0)) (two_flows 1 20))))) = [110] \<and>
   map id_pkt (packetBuffer (the (the_state
      (wfq_run scripted (replicate 2 (0, 0, 0)) (two_flows 1 20))))) = [2] \<and>
   map virtualFinishTime (packetBuffer (the (the_state
      (wfq_run scripted (replicate 3 (0, 0, 0)) (two_flows 1 20))))) = [20] \<and>
   map id_pkt (packetBuffer (the (the_state
      (wfq_run scripted (replicate 3 (0, 0, 0)) (two_flows 1 20))))) = [3] \<and>
   droppedOf (the (the_state
      (wfq_run scripted (replicate 3 (0, 0, 0)) (two_flows 1 20)))) = [1, 0]"
  by (simp add: two_flows_def wfq_run_defs numeral_eq_Suc droppedOf_def)

text \<open>
  Claim C3, amended: when a WFQ arrival finds exactly \<open>bufferSize \<ge> 1\<close> packets buffered, the
  packet \<open>d\<close> that \<^verbatim>\<open>top\<close> and \<^verbatim>\<open>pop\<close> hand out has the smallest virtual finish time of
  the buffered packets and is removed, the dropped count of its source goes up by one and no
  other dropped count changes, the arriving packet is inserted, and the buffer holds
  \<open>bufferSize\<close> packets again. The arriving packet is never the one dropped. The third
  hypothesis holds after every pass of the loop (\<open>wfq_iteration_busy_or_empty\<close>).
\<close>

theorem C3_drop_smallest:
  assumes "wellformed s" and "i < length (sources s)"
    and "linkBusy s \<or> packetBuffer s = []"
    and "length (packetBuffer s) = bufferSize s" and "1 \<le> bufferSize s"
    and "wfq_generatePacket R i (scheduleNextArrival R i s) = (newPacket, s1)"
    and "pq_pop virtualFinishTime kd (packetBuffer s) = (d, b)"
  shows "\<exists>s'. wfq_handleArrivalEvent R kd kt i s = Some s' \<and>
           (\<forall>y \<in> set (packetBuffer s). virtualFinishTime d \<le> virtualFinishTime y) \<and>
           mset (packetBuffer s) = add_mset d (mset b) \<and>
           packetBuffer s' = b @ [newPacket] \<and>
           length (packetBuffer s') = bufferSize s \<and> bufferSize s' = bufferSize s \<and>
           droppedOf s' = (droppedOf s)[sourceID d := droppedOf s ! sourceID d + 1] \<and>
           sourceID d < length (droppedOf s)"
proof -
  let ?s0 = "scheduleNextArrival R i s"
  note g = wfq_generatePacket_fields [OF assms(6)]
  from assms(4,5) have ne: "packetBuffer s \<noteq> []" by auto
  with assms(3) have busy: "linkBusy s" by simp
  from pq_pop_split [OF ne assms(7)] obtain xs ys where
    sp: "packetBuffer s = xs @ d # ys" "b = xs @ ys"
    and least: "\<forall>y \<in> set (packetBuffer s). virtualFinishTime d \<le> virtualFinishTime y" by blast
  from assms(1) sp(1) have d: "sourceID d < length (stats s)" by (simp add: wellformed_def)
  have f0: "bufferSize ?s0 = bufferSize s" "linkBusy ?s0 = linkBusy s" "stats ?s0 = stats s"
    by (simp_all add: scheduleNextArrival_def Let_def scheduleEvent_def split: prod.splits)
  have buf1: "packetBuffer s1 = packetBuffer s" by (simp add: g)
  let ?s2 = "(updateStats (sourceID d) countDropped s1)\<lparr>packetBuffer := b @ [newPacket]\<rparr>"
  have adm: "wfq_admit kd newPacket s1 = Some ?s2"
    using assms(4,7) ne
    by (simp add: wfq_admit_def buf1 g f0 Let_def pq_push_def updateStats_def)
  have "linkBusy ?s2" using busy by (simp add: updateStats_def g f0)
  then have "wfq_startNextTransmission kt ?s2 = ?s2" by (simp add: wfq_startNextTransmission_idle)
  with adm assms(6) have h: "wfq_handleArrivalEvent R kd kt i s = Some ?s2"
    by (simp add: wfq_handleArrivalEvent_def)
  have len: "length (b @ [newPacket]) = bufferSize s"
    using assms(4) sp by simp
  have "droppedOf s1 = droppedOf s"
    by (cases "i < length (stats s)")
       (simp_all add: droppedOf_def g f0 map_update countGenerated_def list_update_same_conv
          list_update_beyond)
  moreover have d1: "sourceID d < length (stats s1)" using d by (simp add: g f0)
  moreover have "droppedOf ?s2
      = (droppedOf s1)[sourceID d := droppedOf s1 ! sourceID d + 1]"
    using d1 by (simp add: droppedOf_def updateStats_def map_update countDropped_def)
  ultimately have dr: "droppedOf ?s2 = (droppedOf s)[sourceID d := droppedOf s ! sourceID d + 1]"
    by simp
  have ms: "mset (packetBuffer s) = add_mset d (mset b)" using sp by simp
  show ?thesis
    using h least ms len dr d
    by (intro exI [of _ ?s2]) (simp add: updateStats_def g f0 droppedOf_def)
qed

text \<open>
  Witness for C3: the third arrival of the run above.
\<close>

theorem C3_drop_smallest_witness:
  "wellformed third_arrival \<and> (1::nat) < length (sources third_arrival) \<and>
   linkBusy third_arrival \<and> length (packetBuffer third_arrival) = bufferSize third_arrival \<and>
   1 \<le> bufferSize third_arrival \<and>
   map id_pkt (packetBuffer (the (wfq_handleArrivalEvent scripted 0 0 1 third_arrival))) = [3] \<and>
   droppedOf (the (wfq_handleArrivalEvent scripted 0 0 1 third_arrival)) = [1, 0]"
proof -
  let ?p = "fst (wfq_generatePacket scripted 1 (scheduleNextArrival scripted 1 third_arrival))"
  let ?s1 = "snd (wfq_generatePacket scripted 1 (scheduleNextArrival scripted 1 third_arrival))"
  let ?d = "\<lparr>id_pkt = 2, sourceID = 0, size_pkt = 10, arrivalTime = 1,
            weight_pkt = 1, virtualFinishTime = 110\<rparr>"
  have h: "wellformed third_arrival" "(1::nat) < length (sources third_arrival)"
    "linkBusy third_arrival \<or> packetBuffer third_arrival = []"
    "length (packetBuffer third_arrival) = bufferSize third_arrival"
    "1 \<le> bufferSize third_arrival"
    "wfq_generatePacket scripted 1 (scheduleNextArrival scripted 1 third_arrival) = (?p, ?s1)"
    "pq_pop virtualFinishTime 0 (packetBuffer third_arrival) = (?d, [])"
    by (simp_all add: third_arrival_def two_flows_def wfq_configured_def WFQSimulator_def
        wfq_Source_def wellformed_def pq_pop_def pq_minima_def)
  from C3_drop_smallest [OF h, of 0] obtain s' where
    s': "wfq_handleArrivalEvent scripted 0 0 1 third_arrival = Some s'"
    "packetBuffer s' = [] @ [?p]"
    "droppedOf s' = (droppedOf third_arrival)[sourceID ?d := droppedOf third_arrival ! sourceID ?d + 1]"
    by blast
  have "id_pkt ?p = 3"
    by (simp add: third_arrival_def two_flows_def wfq_run_defs)
  moreover have "droppedOf third_arrival = [0, 0]"
    by (simp add: third_arrival_def two_flows_def wfq_configured_def droppedOf_def SourceStats_def)
  ultimately show ?thesis
    using h(1,2,4,5) s'
    by (simp add: third_arrival_def two_flows_def wfq_configured_def WFQSimulator_def)
qed

lemma wfq_iteration_before_start:
  "wfq_before_start R k s = Some t \<Longrightarrow>
     wfq_iteration R k s = Continue (wfq_startNextTransmission (snd (snd k)) t)"
  "wfq_before_start R k s = None \<Longrightarrow> wfq_iteration R k s \<noteq> Continue s'"
  by (auto simp: wfq_iteration_def wfq_before_start_def wfq_handleArrivalEvent_def
      wfq_handleDepartureEvent_def Let_def split: prod.splits event.splits option.splits if_splits)

text \<open>
  Claim C2, as stated, fails: two sources of weight 1 share a link of 10 bytes per second.
  Source 0 sends 100 bytes at time 0 (started at once, sample 0) and 10 bytes at time 1
  (virtual start 100, finish 110); source 1 sends 200 bytes at time 2 (virtual start 0,
  finish 200). The 10-byte packet is started next, sample 100, and then the 200-byte packet,
  sample 0.
\<close>

theorem C2_counterexample:
  "map snd (wfq_vsamples scripted (replicate 7 (0, 0, 0)) (prime (two_flows 5 200))) = [0, 100, 0] \<and>
   \<not> sorted (map snd (wfq_vsamples scripted (replicate 7 (0, 0, 0)) (prime (two_flows 5 200))))"
  by (simp add: two_flows_def wfq_run_defs numeral_eq_Suc wfq_before_start_def
      wfq_start_sample_def)

lemma packetBuffer_prime [simp]: "packetBuffer (prime s) = packetBuffer s"
proof -
  have "packetBuffer (foldl (\<lambda>s' src. scheduleEvent (PACKET_ARRIVAL (startTime src) (id_src src)) s') s srcs)
      = packetBuffer s" for srcs
    by (induction srcs arbitrary: s) (simp_all add: scheduleEvent_def)
  then show ?thesis by (simp add: prime_def)
qed

text \<open>
  Claim C2, amended: a transmission start takes from the buffer a packet whose
  \<open>virtualFinishTime\<close> no buffered packet undercuts and sets \<open>systemVirtualTime\<close> to
  that packet's \<open>virtualFinishTime - size / weight\<close>, whatever the value was before; when
  the link is busy or the buffer is empty nothing is started and nothing changes.
  \<open>wfq_start_sample\<close> is what \<open>wfq_vsamples\<close> records for the pass, and
  \<open>wfq_iteration_before_start\<close> ties it to \<open>wfq_iteration\<close>. Successive samples are
  not ordered: the packet started is the first in finish-time order, and the value written
  is computed from its finish time alone.
\<close>

theorem C2_virtual_time_at_dispatch:
  "(\<not> linkBusy t \<and> packetBuffer t \<noteq> [] \<and> pq_pop virtualFinishTime kt (packetBuffer t) = (p, b) \<longrightarrow>
      p \<in> set (packetBuffer t) \<and>
      (\<forall>q \<in> set (packetBuffer t). virtualFinishTime p \<le> virtualFinishTime q) \<and>
      linkBusy (wfq_startNextTransmission kt t) \<and>
      packetBuffer (wfq_startNextTransmission kt t) = b \<and>
      systemVirtualTime (wfq_startNextTransmission kt t)
        = virtualFinishTime p - real_of_int (size_pkt p) / weight_pkt p \<and>
      wfq_start_sample kt t
        = [(sourceID p, virtualFinishTime p - real_of_int (size_pkt p) / weight_pkt p)]) \<and>
   (linkBusy t \<or> packetBuffer t = [] \<longrightarrow>
      wfq_startNextTransmission kt t = t \<and> wfq_start_sample kt t = [])"
proof (intro conjI impI)
  assume a: "\<not> linkBusy t \<and> packetBuffer t \<noteq> [] \<and>
    pq_pop virtualFinishTime kt (packetBuffer t) = (p, b)"
  then have ne: "packetBuffer t \<noteq> []" and pop: "pq_pop virtualFinishTime kt (packetBuffer t) = (p, b)"
    by simp_all
  from pq_pop_split [OF ne pop] obtain xs ys where
    s: "packetBuffer t = xs @ p # ys" "b = xs @ ys"
    and least: "\<forall>q \<in> set (packetBuffer t). virtualFinishTime p \<le> virtualFinishTime q" by blast
  from s(1) show "p \<in> set (packetBuffer t)" by simp
  from least show "\<forall>q \<in> set (packetBuffer t). virtualFinishTime p \<le> virtualFinishTime q" .
  from a show "linkBusy (wfq_startNextTransmission kt t)"
    by (simp add: wfq_startNextTransmission_def Let_def scheduleEvent_def)
  from a show "packetBuffer (wfq_startNextTransmission kt t) = b"
    by (simp add: wfq_startNextTransmission_def Let_def scheduleEvent_def)
  from a show v: "systemVirtualTime (wfq_startNextTransmission kt t)
      = virtualFinishTime p - real_of_int (size_pkt p) / weight_pkt p"
    by (simp add: wfq_startNextTransmission_def Let_def scheduleEvent_def)
  from a v show "wfq_start_sample kt t
      = [(sourceID p, virtualFinishTime p - real_of_int (size_pkt p) / weight_pkt p)]"
    by (simp add: wfq_start_sample_def)
next
  assume "linkBusy t \<or> packetBuffer t = []"
  then show "wfq_startNextTransmission kt t = t" by (simp add: wfq_startNextTransmission_def)
next
  assume "linkBusy t \<or> packetBuffer t = []"
  then show "wfq_start_sample kt t = []" by (simp add: wfq_start_sample_def)
qed

text \<open>
  Witness for C2: after the first departure of the run above the link is idle and the buffer
  holds the 10-byte packet (finish 110) and the 200-byte packet (finish 200); the start
  replaces the system virtual time 0 by \<open>110 - 10 / 1\<close>. At the second arrival of that
  run the link is busy and nothing is started.
\<close>

theorem C2_virtual_time_at_dispatch_witness:
  "\<not> linkBusy first_departure \<and> packetBuffer first_departure \<noteq> [] \<and>
   pq_pop virtualFinishTime 0 (packetBuffer first_departure) =
     (\<lparr>id_pkt = 2, sourceID = 0, size_pkt = 10, arrivalTime = 1, weight_pkt = 1,
        virtualFinishTime = 110\<rparr>,
      [\<lparr>id_pkt = 3, sourceID = 1, size_pkt = 200, arrivalTime = 2, weight_pkt = 1,
         virtualFinishTime = 200\<rparr>]) \<and>
   systemVirtualTime first_departure = 0 \<and>
   systemVirtualTime (wfq_startNextTransmission 0 first_departure) = 110 - 10 / 1 \<and>
   wfq_start_sample 0 first_departure = [(0, 110 - 10 / 1)] \<and>
   linkBusy second_arrival \<and> wfq_startNextTransmission 0 second_arrival = second_arrival"
proof -
  let ?p = "\<lparr>id_pkt = 2, sourceID = 0, size_pkt = 10, arrivalTime = 1, weight_pkt = 1,
        virtualFinishTime = 110\<rparr>"
  let ?b = "[\<lparr>id_pkt = 3, sourceID = 1, size_pkt = 200, arrivalTime = 2, weight_pkt = 1,
         virtualFinishTime = 200\<rparr>]"
  have st: "\<not> linkBusy first_departure" "packetBuffer first_departure = ?p # ?b"
    "systemVirtualTime first_departure = 0"
    by (simp_all add: first_departure_def two_flows_def wfq_run_defs numeral_eq_Suc
        wfq_before_start_def recordDeparture_def)
  have pop: "pq_pop virtualFinishTime 0 (packetBuffer first_departure) = (?p, ?b)"
    by (simp add: st(2) pq_pop_def pq_minima_def)
  have busy: "linkBusy second_arrival"
    by (simp add: second_arrival_def two_flows_def wfq_configured_def WFQSimulator_def)
  note th = C2_virtual_time_at_dispatch [of first_departure 0 ?p ?b]
  note th' = C2_virtual_time_at_dispatch [of second_arrival 0]
  from th st(1,2) pop
  have "systemVirtualTime (wfq_startNextTransmission 0 first_departure) = 110 - 10 / 1 \<and>
    wfq_start_sample 0 first_departure = [(0, 110 - 10 / 1)]" by simp
  moreover from th' busy have "wfq_startNextTransmission 0 second_arrival = second_arrival"
    by blast
  ultimately show ?thesis using st pop busy by simp
qed







lemma stats_scheduleNextArrival [simp]: "stats (scheduleNextArrival R i s) = stats s"
  by (simp add: scheduleNextArrival_def Let_def scheduleEvent_def split: prod.splits)

lemma stats_fcfs_startNextTransmission [simp]: "stats (fcfs_startNextTransmission s) = stats s"
  by (simp add: fcfs_startNextTransmission_def Let_def scheduleEvent_def)

lemma stats_wfq_startNextTransmission [simp]: "stats (wfq_startNextTransmission k s) = stats s"
  by (simp add: wfq_startNextTransmission_def Let_def scheduleEvent_def split: prod.splits)

lemma stats_prime [simp]: "stats (prime s) = stats s"
proof -
  have "stats (foldl (\<lambda>s' src. scheduleEvent (PACKET_ARRIVAL (startTime src) (id_src src)) s') s srcs)
      = stats s" for srcs
    by (induction srcs arbitrary: s) (simp_all add: scheduleEvent_def)
  then show ?thesis by (simp add: prime_def)
qed














lemma pq_minima_map_aux:
  assumes "\<And>x. P' (h x) = P x"
  shows "map fst (filter (\<lambda>(i, x). P' x) (enumerate n (map h q)))
       = map fst (filter (\<lambda>(i, x). P x) (enumerate n q))"
  by (induction q arbitrary: n) (simp_all add: assms)

lemma pq_minima_map:
  assumes "\<And>x. key' (h x) = key x"
  shows "pq_minima key' (map h q) = pq_minima key q"
  unfolding pq_minima_def
  by (rule pq_minima_map_aux) (simp add: list_all_iff assms)

lemma pq_pop_map:
  assumes "\<And>x. key' (h x) = key x" "q \<noteq> []" "pq_pop key k q = (x, r)"
  shows "pq_pop key' k (map h q) = (h x, map h r)"
proof -
  let ?c = "pq_minima key q"
  let ?i = "?c ! (k mod length ?c)"
  have "?c \<noteq> []" using assms(2) by (rule pq_minima_nonempty)
  then have "?i \<in> set ?c" by simp
  then have i: "?i < length q" using pq_minima_member by blast
  from assms(3) have x: "x = q ! ?i" and r: "r = take ?i q @ drop (Suc ?i) q"
    by (simp_all add: pq_pop_def Let_def)
  show ?thesis
    using i by (simp add: pq_pop_def Let_def pq_minima_map [of key' h key, OF assms(1)] x r
        take_map drop_map)
qed

lemma snd_enumerate_in: "ix \<in> set (enumerate n xs) \<Longrightarrow> snd ix \<in> set xs"
  by (induction xs arbitrary: n) auto

lemma pq_pop_head:
  assumes "\<forall>q \<in> set ps. key p < key q"
  shows "pq_pop key k (p # ps) = (p, ps)"
proof -
  have "snd ix \<in> set ps" if "ix \<in> set (enumerate (Suc 0) ps)" for ix
    using that by (rule snd_enumerate_in)
  with assms have "\<not> key (snd ix) \<le> key p" if "ix \<in> set (enumerate (Suc 0) ps)" for ix
    using that by (simp add: not_le)
  then have "filter (\<lambda>(i, x). list_all (\<lambda>y. key x \<le> key y) (p # ps)) (enumerate (Suc 0) ps) = []"
    by (auto simp: filter_empty_conv)
  moreover have "list_all (\<lambda>y. key p \<le> key y) ps"
    using assms by (auto simp: list_all_iff)
  ultimately have "pq_minima key (p # ps) = [0]"
    by (simp add: pq_minima_def)
  then show ?thesis by (simp add: pq_pop_def)
qed

text \<open>
  Claim C7, as stated, fails: one source, a buffer of one packet, packets of 100, 10 and 50
  bytes arriving at times 0, 1 and 2 on a link of 10 bytes per second, the same draws in
  both simulators. The third packet finds the buffer full. FCFS drops it and next transmits
  the 10-byte packet, departing at 11; WFQ drops the 10-byte packet and next transmits the
  50-byte packet, departing at 15. FCFS transmits 110 bytes, WFQ 150.
\<close>

theorem C7_counterexample:
  "same_run (one_flow 1) (wfq_one_flow 1) \<and>
   bytesOf (the (the_state (fcfs_run scripted (replicate 6 0) (one_flow 1)))) = [110] \<and>
   bytesOf (the (the_state (wfq_run scripted (replicate 6 (0, 0, 0)) (wfq_one_flow 1)))) = [150] \<and>
   eventQueue (the (the_state (fcfs_run scripted (replicate 4 0) (one_flow 1)))) =
     [PACKET_DEPARTURE 11 \<lparr>id_pkt = 2, sourceID = 0, size_pkt = 10, arrivalTime = 1\<rparr>] \<and>
   map (map_event erase)
     (eventQueue (the (the_state (wfq_run scripted (replicate 4 (0, 0, 0)) (wfq_one_flow 1))))) =
     [PACKET_DEPARTURE 15 \<lparr>id_pkt = 3, sourceID = 0, size_pkt = 50, arrivalTime = 2\<rparr>]"
  by (simp add: one_flow_def wfq_one_flow_def run_defs wfq_run_defs numeral_eq_Suc bytesOf_def
      same_run_def erase_def plain_source_def)

lemma time_ev_erase [simp]: "time_ev (map_event erase e) = time_ev e"
  by (cases e) simp_all

lemma same_run_source:
  assumes "same_run f w" "i < length (sources w)"
  shows "sources f ! i = plain_source (sources w ! i)"
proof -
  from assms(1) have "map plain_source (sources w) = sources f" by (simp add: same_run_def)
  then have "sources f ! i = map plain_source (sources w) ! i" by simp
  with assms(2) show ?thesis by simp
qed

lemma same_pop:
  assumes "same_run f w" "eventQueue w \<noteq> []" "pq_pop time_ev k (eventQueue w) = (e, q)"
  shows "pq_pop time_ev k (eventQueue f) = (map_event erase e, map (map_event erase) q)"
    and "same_run (f\<lparr>eventQueue := map (map_event erase) q, currentTime := t\<rparr>)
      (w\<lparr>eventQueue := q, currentTime := t\<rparr>)"
proof -
  from assms(1) have eq: "eventQueue f = map (map_event erase) (eventQueue w)"
    by (simp add: same_run_def)
  show "pq_pop time_ev k (eventQueue f) = (map_event erase e, map (map_event erase) q)"
    unfolding eq using _ assms(2,3) by (rule pq_pop_map) simp
  show "same_run (f\<lparr>eventQueue := map (map_event erase) q, currentTime := t\<rparr>)
      (w\<lparr>eventQueue := q, currentTime := t\<rparr>)"
    using assms(1) by (simp add: same_run_def)
qed

lemma same_scheduleEvent:
  "same_run f w \<Longrightarrow> same_run (scheduleEvent (map_event erase e) f) (scheduleEvent e w)"
  by (simp add: same_run_def scheduleEvent_def pq_push_def)

lemma same_scheduleNextArrival:
  assumes "same_run f w" "i < length (sources w)"
  shows "same_run (scheduleNextArrival R i f) (scheduleNextArrival R i w)"
proof -
  note src = same_run_source [OF assms]
  from assms(1) have gen: "generator w = generator f" and ct: "currentTime w = currentTime f"
    by (simp_all add: same_run_def)
  obtain d g' where d: "arrivalDist R (packetRate (sources w ! i)) (generator w) = (d, g')"
    by (cases "arrivalDist R (packetRate (sources w ! i)) (generator w)")
  have s1: "same_run (f\<lparr>generator := g'\<rparr>) (w\<lparr>generator := g'\<rparr>)"
    using assms(1) by (simp add: same_run_def)
  from same_scheduleEvent [OF s1, of "PACKET_ARRIVAL (currentTime w + d) i"] s1 d
  show ?thesis
    by (simp add: scheduleNextArrival_def Let_def src plain_source_def Source_def gen ct)
qed

lemma same_generatePacket:
  assumes "same_run f w" "i < length (sources w)"
    "fcfs_generatePacket R i f = (pf, f')" "wfq_generatePacket R i w = (pw, w')"
  shows "pf = erase pw" and "same_run f' w'"
proof -
  note src = same_run_source [OF assms(1,2)]
  note g = wfq_generatePacket_fields [OF assms(4)]
  from assms(1) have e: "generator w = generator f" "currentTime w = currentTime f"
    "nextPacketId w = nextPacketId f" "stats w = stats f"
    by (simp_all add: same_run_def)
  from assms(3) have pf: "pf = \<lparr>id_pkt = nextPacketId f, sourceID = i,
      size_pkt = fst (sizeDist R (minSize (sources w ! i)) (maxSize (sources w ! i)) (generator f)),
      arrivalTime = currentTime f\<rparr>"
    and f': "f' = updateStats i countGenerated (f\<lparr>nextPacketId := nextPacketId f + 1,
      generator := snd (sizeDist R (minSize (sources w ! i)) (maxSize (sources w ! i)) (generator f))\<rparr>)"
    by (auto simp: fcfs_generatePacket_def Let_def src plain_source_def Source_def
        split: prod.splits)
  show "pf = erase pw" by (simp add: pf erase_def g e)
  from assms(4) have gw: "generator w' = snd (sizeDist R (minSize (sources w ! i))
      (maxSize (sources w ! i)) (generator w))"
    by (auto simp: wfq_generatePacket_def Let_def updateStats_def split: prod.splits)
  have "map plain_source ((sources w)[i := (sources w ! i)\<lparr>lastFinishTime := x\<rparr>])
      = map plain_source (sources w)" for x
    using assms(2) by (simp add: list_eq_iff_nth_eq nth_list_update plain_source_def)
  with assms(1) show "same_run f' w'"
    by (simp add: same_run_def f' g gw e updateStats_def)
qed

lemma same_admit_room:
  assumes "same_run f w" "length (packetBuffer f) < bufferSize f"
  shows "wfq_admit k pw w = Some (w\<lparr>packetBuffer := packetBuffer w @ [pw]\<rparr>)"
    and "same_run (fcfs_admit (erase pw) f) (w\<lparr>packetBuffer := packetBuffer w @ [pw]\<rparr>)"
proof -
  from assms(1) have "length (packetBuffer w) = length (packetBuffer f)"
    "bufferSize w = bufferSize f"
    by (auto simp: same_run_def dest: arg_cong [where f = length])
  with assms(2) show "wfq_admit k pw w = Some (w\<lparr>packetBuffer := packetBuffer w @ [pw]\<rparr>)"
    by (simp add: wfq_admit_def pq_push_def)
  show "same_run (fcfs_admit (erase pw) f) (w\<lparr>packetBuffer := packetBuffer w @ [pw]\<rparr>)"
    using assms by (simp add: same_run_def fcfs_admit_def)
qed

lemma drops_updateStats:
  assumes "j < length (stats s)"
  shows "drops (updateStats j countDropped s) = drops s + 1"
    and "drops (updateStats j countGenerated s) = drops s"
    and "drops (updateStats j (countTransmitted b d) s) = drops s"
proof -
  have upd: "sum_list (map packetsDropped (xs[j := y]))
      = sum_list (map packetsDropped xs) + packetsDropped y - packetsDropped (xs ! j)"
    if "j < length xs" for xs :: "sourceStats list" and y
    using that by (simp add: map_update sum_list_update)
  show "drops (updateStats j countDropped s) = drops s + 1"
    using assms by (simp add: drops_def updateStats_def upd countDropped_def)
  show "drops (updateStats j countGenerated s) = drops s"
    using assms by (simp add: drops_def updateStats_def upd countGenerated_def)
  show "drops (updateStats j (countTransmitted b d) s) = drops s"
    using assms by (simp add: drops_def updateStats_def upd countTransmitted_def)
qed

lemma drops_fcfs_admit_full:
  assumes "\<not> length (packetBuffer f) < bufferSize f" "sourceID pf < length (stats f)"
  shows "drops (fcfs_admit pf f) = drops f + 1"
  using assms by (simp add: fcfs_admit_def drops_updateStats)

lemma same_startNextTransmission:
  assumes "same_run f w" "vft_ordered w"
  shows "same_run (fcfs_startNextTransmission f) (wfq_startNextTransmission k w)"
proof -
  from assms(1) have b: "map erase (packetBuffer w) = packetBuffer f" "linkBusy w = linkBusy f"
    by (simp_all add: same_run_def)
  show ?thesis
  proof (cases "linkBusy w \<or> packetBuffer w = []")
    case True
    with b have "linkBusy f \<or> packetBuffer f = []" by auto
    with True assms show ?thesis
      by (simp add: fcfs_startNextTransmission_idle wfq_startNextTransmission_idle)
  next
    case False
    then obtain p ps where buf: "packetBuffer w = p # ps" by (cases "packetBuffer w") auto
    from assms(2) buf have "\<forall>q \<in> set ps. virtualFinishTime p < virtualFinishTime q"
      by (simp add: vft_ordered_def)
    then have pop: "pq_pop virtualFinishTime k (p # ps) = (p, ps)" by (rule pq_pop_head)
    let ?w1 = "w\<lparr>linkBusy := True, packetBuffer := ps,
        systemVirtualTime := virtualFinishTime p - real_of_int (size_pkt p) / weight_pkt p\<rparr>"
    let ?f1 = "f\<lparr>linkBusy := True, packetBuffer := map erase ps\<rparr>"
    let ?tm = "currentTime w + real_of_int (size_pkt p) / linkCapacity w"
    have w': "wfq_startNextTransmission k w = scheduleEvent (PACKET_DEPARTURE ?tm p) ?w1"
      using False buf pop by (simp add: wfq_startNextTransmission_def Let_def)
    from assms(1) have e: "currentTime w = currentTime f" "linkCapacity w = linkCapacity f"
      by (simp_all add: same_run_def)
    have bf: "packetBuffer f = erase p # map erase ps" "\<not> linkBusy f"
      using False buf b by auto
    have f': "fcfs_startNextTransmission f
        = scheduleEvent (map_event erase (PACKET_DEPARTURE ?tm p)) ?f1"
      by (simp add: fcfs_startNextTransmission_def Let_def bf e) (simp add: erase_def)
    have "same_run ?f1 ?w1" using assms(1) buf by (auto simp: same_run_def)
    then show ?thesis unfolding w' f' by (rule same_scheduleEvent)
  qed
qed

lemma same_recordDeparture:
  "same_run f w \<Longrightarrow> same_run (recordDeparture (erase p) f) (recordDeparture p w)"
  by (simp add: same_run_def recordDeparture_def updateStats_def Let_def erase_def)

lemma drops_updateStats_le:
  assumes "\<And>st. packetsDropped st \<le> packetsDropped (g st)"
  shows "drops s \<le> drops (updateStats j g s)"
proof (cases "j < length (stats s)")
  case True
  have "sum_list (map packetsDropped ((stats s)[j := g (stats s ! j)]))
      = sum_list (map packetsDropped (stats s)) + packetsDropped (g (stats s ! j))
          - packetsDropped (stats s ! j)"
    using True by (simp add: map_update sum_list_update)
  with assms [of "stats s ! j"] show ?thesis by (simp add: drops_def updateStats_def)
next
  case False
  then show ?thesis by (simp add: drops_def updateStats_def list_update_beyond)
qed

lemma drops_fields [simp]:
  "drops (scheduleNextArrival R i s) = drops s"
  "drops (fcfs_startNextTransmission f) = drops f"
  "drops (s\<lparr>eventQueue := q, currentTime := t\<rparr>) = drops s"
  by (simp_all add: drops_def scheduleNextArrival_def fcfs_startNextTransmission_def Let_def
      scheduleEvent_def split: prod.splits)

lemma drops_fcfs_generatePacket:
  assumes "fcfs_generatePacket R i f = (p, f')"
  shows "drops f \<le> drops f'" and "sourceID p = i" and "length (stats f') = length (stats f)"
    and "packetBuffer f' = packetBuffer f" and "bufferSize f' = bufferSize f"
proof -
  obtain f1 where f1: "f' = updateStats i countGenerated f1" "drops f1 = drops f"
    using assms by (auto simp: fcfs_generatePacket_def Let_def drops_def split: prod.splits)
  have "drops f1 \<le> drops (updateStats i countGenerated f1)"
    by (rule drops_updateStats_le) (simp add: countGenerated_def)
  with f1 show "drops f \<le> drops f'" by simp
  show "sourceID p = i" "length (stats f') = length (stats f)" "packetBuffer f' = packetBuffer f"
    "bufferSize f' = bufferSize f"
    using assms
    by (auto simp: fcfs_generatePacket_def Let_def updateStats_def split: prod.splits)
qed

lemma drops_fcfs_admit: "drops f \<le> drops (fcfs_admit p f)"
  using drops_updateStats_le [of countDropped f "sourceID p"]
  by (simp add: fcfs_admit_def countDropped_def drops_def)

lemma drops_recordDeparture: "drops s \<le> drops (recordDeparture p s)"
proof -
  have "drops (s\<lparr>linkBusy := False\<rparr>) = drops s" by (simp add: drops_def)
  moreover have "drops (s\<lparr>linkBusy := False\<rparr>)
      \<le> drops (updateStats (sourceID p) (countTransmitted b d) (s\<lparr>linkBusy := False\<rparr>))" for b d
    by (rule drops_updateStats_le) (simp add: countTransmitted_def)
  ultimately show ?thesis by (simp add: recordDeparture_def Let_def)
qed

lemma drops_fcfs_iteration:
  assumes "fcfs_iteration R k f = Continue f'"
  shows "drops f \<le> drops f'"
proof -
  have arr: "drops s \<le> drops (fcfs_handleArrivalEvent R i s)" for i and s :: "'a FCFSSimulator"
  proof -
    obtain p s2 where g: "fcfs_generatePacket R i (scheduleNextArrival R i s) = (p, s2)"
      by (cases "fcfs_generatePacket R i (scheduleNextArrival R i s)")
    from drops_fcfs_generatePacket(1) [OF g] drops_fcfs_admit [of s2 p]
    show ?thesis by (simp add: fcfs_handleArrivalEvent_def g)
  qed
  from assms have ne: "eventQueue f \<noteq> []" by (auto simp: fcfs_iteration_def)
  obtain e q where pop: "pq_pop time_ev k (eventQueue f) = (e, q)"
    by (cases "pq_pop time_ev k (eventQueue f)")
  let ?f1 = "f\<lparr>eventQueue := q, currentTime := time_ev e\<rparr>"
  have d1: "drops ?f1 = drops f" by simp
  from assms ne pop have f': "f' = (case e of
      PACKET_ARRIVAL tm srcID \<Rightarrow> fcfs_handleArrivalEvent R srcID ?f1
    | PACKET_DEPARTURE tm p \<Rightarrow> fcfs_handleDepartureEvent p ?f1)"
    by (auto simp: fcfs_iteration_def Let_def split: if_splits)
  show ?thesis
  proof (cases e)
    case (PACKET_ARRIVAL tm i)
    with f' arr [of ?f1 i] d1 show ?thesis by simp
  next
    case (PACKET_DEPARTURE tm p)
    with f' drops_recordDeparture [of ?f1 p] d1 show ?thesis
      by (simp add: fcfs_handleDepartureEvent_def)
  qed
qed

lemma drops_fcfs_loop:
  "the_state (fcfs_loop R ks f) = Some f' \<Longrightarrow> drops f \<le> drops f'"
proof (induction ks arbitrary: f)
  case Nil
  then show ?case by simp
next
  case (Cons k ks)
  show ?case
  proof (cases "fcfs_iteration R k f")
    case (Continue f1)
    from drops_fcfs_iteration [OF Continue] Cons.IH [of f1] Cons.prems Continue
    show ?thesis by simp
  next
    case (Break f1)
    then have "f1 = f \<or> drops f1 = drops f"
      by (auto simp: fcfs_iteration_def Let_def split: if_splits prod.splits)
    with Cons.prems Break show ?thesis by auto
  next
    case Undefined
    with Cons.prems show ?thesis by simp
  qed
qed

lemma same_arrive:
  assumes "wellformed w" "same_run f w" "i < length (sources w)"
    "drops (fcfs_handleArrivalEvent R i f) = drops f"
    "fcfs_generatePacket R i (scheduleNextArrival R i f) = (pf, f2)"
    "wfq_generatePacket R i (scheduleNextArrival R i w) = (pw, w2)"
  shows "wfq_admit kd pw w2 = Some (w2\<lparr>packetBuffer := packetBuffer w2 @ [pw]\<rparr>)"
    and "same_run (fcfs_admit pf f2) (w2\<lparr>packetBuffer := packetBuffer w2 @ [pw]\<rparr>)"
proof -
  let ?f1 = "scheduleNextArrival R i f"
  let ?w1 = "scheduleNextArrival R i w"
  have i1: "i < length (sources ?w1)" using assms(3) by simp
  have s1: "same_run ?f1 ?w1" using assms(2,3) by (rule same_scheduleNextArrival)
  note s2 = same_generatePacket [OF s1 i1 assms(5,6)]
  note df = drops_fcfs_generatePacket [OF assms(5)]
  have len: "length (stats f) = length (sources w)"
    using assms(1,2) by (simp add: same_run_def wellformed_def)
  have lf1: "length (stats ?f1) = length (stats f)"
    by (simp add: scheduleNextArrival_def Let_def scheduleEvent_def split: prod.splits)
  have room: "length (packetBuffer f2) < bufferSize f2"
  proof (rule ccontr)
    assume full: "\<not> length (packetBuffer f2) < bufferSize f2"
    have "sourceID pf < length (stats f2)" using df(2,3) lf1 len assms(3) by simp
    with full have "drops (fcfs_admit pf f2) = drops f2 + 1" by (rule drops_fcfs_admit_full)
    moreover have "drops (fcfs_handleArrivalEvent R i f) = drops (fcfs_admit pf f2)"
      by (simp add: fcfs_handleArrivalEvent_def assms(5))
    ultimately show False using df(1) assms(4) by simp
  qed
  note adm = same_admit_room [OF s2(2) room]
  from adm(1) show "wfq_admit kd pw w2 = Some (w2\<lparr>packetBuffer := packetBuffer w2 @ [pw]\<rparr>)" .
  from adm(2) [where pw = pw] show "same_run (fcfs_admit pf f2) (w2\<lparr>packetBuffer := packetBuffer w2 @ [pw]\<rparr>)"
    by (simp add: s2(1))
qed

lemma same_iteration:
  assumes "wellformed w" "same_run f w"
    "\<And>f1. fcfs_iteration R ke f = Continue f1 \<Longrightarrow> drops f1 = drops f"
    "\<And>t. wfq_before_start R (ke, kd, kt) w = Some t \<Longrightarrow> vft_ordered t"
  shows "same_outcome (fcfs_iteration R ke f) (wfq_iteration R (ke, kd, kt) w)"
proof (cases "eventQueue w = []")
  case True
  moreover from assms(2) have "eventQueue f = map (map_event erase) (eventQueue w)"
    by (simp add: same_run_def)
  ultimately show ?thesis using assms(2) by (simp add: fcfs_iteration_def wfq_iteration_def)
next
  case False
  from assms(2) have q: "eventQueue f = map (map_event erase) (eventQueue w)"
    and T: "simulationTime w = simulationTime f"
    by (simp_all add: same_run_def)
  obtain e qw where pop: "pq_pop time_ev ke (eventQueue w) = (e, qw)"
    by (cases "pq_pop time_ev ke (eventQueue w)")
  from pq_pop_split [OF False pop] obtain xs ys where
    split: "eventQueue w = xs @ e # ys" "qw = xs @ ys" by blast
  note wp = wellformed_popped [OF assms(1) split(1)]
  let ?w1 = "w\<lparr>eventQueue := qw, currentTime := time_ev e\<rparr>"
  let ?f1 = "f\<lparr>eventQueue := map (map_event erase) qw, currentTime := time_ev e\<rparr>"
  note sp = same_pop [OF assms(2) False pop]
  have nef: "eventQueue f \<noteq> []" using False q by simp
  have w1: "wellformed ?w1" using wellformed_pop [OF assms(1) split(1)] split(2) by simp
  have le: "\<not> simulationTime f < time_ev e" using wp(2) T by simp
  show ?thesis
  proof (cases e)
    case (PACKET_ARRIVAL tm i)
    have fi: "fcfs_iteration R ke f = Continue (fcfs_handleArrivalEvent R i ?f1)"
      using nef sp(1) le PACKET_ARRIVAL by (simp add: fcfs_iteration_def Let_def)
    from assms(3) [OF fi] have nd: "drops (fcfs_handleArrivalEvent R i ?f1) = drops ?f1"
      by simp
    have i: "i < length (sources ?w1)" using wp(1) PACKET_ARRIVAL by simp
    obtain pf f2 where gf: "fcfs_generatePacket R i (scheduleNextArrival R i ?f1) = (pf, f2)"
      by (cases "fcfs_generatePacket R i (scheduleNextArrival R i ?f1)")
    obtain pw w2 where gw: "wfq_generatePacket R i (scheduleNextArrival R i ?w1) = (pw, w2)"
      by (cases "wfq_generatePacket R i (scheduleNextArrival R i ?w1)")
    let ?w3 = "w2\<lparr>packetBuffer := packetBuffer w2 @ [pw]\<rparr>"
    note ar = same_arrive(1) [OF w1 sp(2) i nd gf gw, where kd = kd]
      same_arrive(2) [OF w1 sp(2) i nd gf gw]
    have "wfq_before_start R (ke, kd, kt) w = Some ?w3"
      using False pop le T PACKET_ARRIVAL gw ar(1)
      by (simp add: wfq_before_start_def Let_def)
    then have o: "vft_ordered ?w3" by (rule assms(4))
    have wi: "wfq_iteration R (ke, kd, kt) w = Continue (wfq_startNextTransmission kt ?w3)"
      using False pop le T PACKET_ARRIVAL gw ar(1)
      by (simp add: wfq_iteration_def wfq_handleArrivalEvent_def Let_def)
    have fh: "fcfs_handleArrivalEvent R i ?f1 = fcfs_startNextTransmission (fcfs_admit pf f2)"
      by (simp add: fcfs_handleArrivalEvent_def gf)
    from same_startNextTransmission [OF ar(2) o, of kt]
    show ?thesis by (simp add: fi wi fh)
  next
    case (PACKET_DEPARTURE tm p)
    have fi: "fcfs_iteration R ke f = Continue (fcfs_handleDepartureEvent (erase p) ?f1)"
      using nef sp(1) le PACKET_DEPARTURE by (simp add: fcfs_iteration_def Let_def)
    have wi: "wfq_iteration R (ke, kd, kt) w = Continue (wfq_handleDepartureEvent kt p ?w1)"
      using False pop le T PACKET_DEPARTURE by (simp add: wfq_iteration_def Let_def)
    have r: "same_run (recordDeparture (erase p) ?f1) (recordDeparture p ?w1)"
      using sp(2) by (rule same_recordDeparture)
    have "wfq_before_start R (ke, kd, kt) w = Some (recordDeparture p ?w1)"
      using False pop le T PACKET_DEPARTURE by (simp add: wfq_before_start_def Let_def)
    then have o: "vft_ordered (recordDeparture p ?w1)" by (rule assms(4))
    from same_startNextTransmission [OF r o, of kt]
    show ?thesis
      by (simp add: fi wi fcfs_handleDepartureEvent_def wfq_handleDepartureEvent_def)
  qed
qed

lemma same_loop:
  "wfq_inv w \<Longrightarrow> same_run f w \<Longrightarrow>
    the_state (fcfs_loop R (map fst ks) f) = Some f' \<Longrightarrow> drops f' = drops f \<Longrightarrow>
    wfq_in_order R ks w \<Longrightarrow>
    same_outcome (fcfs_loop R (map fst ks) f) (wfq_loop R ks w)"
proof (induction ks arbitrary: f w)
  case Nil
  then show ?case by simp
next
  case (Cons k ks)
  obtain ke kd kt where k: "k = (ke, kd, kt)" by (cases k)
  from Cons.prems(1) have wf: "wellformed w" by (simp add: wfq_inv_def)
  have nd: "drops f1 = drops f \<and> drops f' = drops f1" if c: "fcfs_iteration R ke f = Continue f1" for f1
  proof -
    from Cons.prems(3) c have "the_state (fcfs_loop R (map fst ks) f1) = Some f'" by (simp add: k)
    from drops_fcfs_loop [OF this] drops_fcfs_iteration [OF c] Cons.prems(4)
    show ?thesis by simp
  qed
  have ord: "vft_ordered t \<and> wfq_in_order R ks (wfq_startNextTransmission kt t)"
    if "wfq_before_start R (ke, kd, kt) w = Some t" for t
    using Cons.prems(5) that by (simp add: k)
  have so: "same_outcome (fcfs_iteration R ke f) (wfq_iteration R (ke, kd, kt) w)"
    using wf Cons.prems(2) by (rule same_iteration) (simp_all add: nd ord)
  show ?case
  proof (cases "fcfs_iteration R ke f")
    case (Continue f1)
    with so obtain w1 where w1: "wfq_iteration R (ke, kd, kt) w = Continue w1" "same_run f1 w1"
      by (cases "wfq_iteration R (ke, kd, kt) w") simp_all
    obtain t where t: "wfq_before_start R (ke, kd, kt) w = Some t"
      using wfq_iteration_before_start(2) [of R "(ke, kd, kt)" w w1] w1(1)
      by (cases "wfq_before_start R (ke, kd, kt) w") auto
    from wfq_iteration_before_start(1) [OF t] w1(1)
    have "w1 = wfq_startNextTransmission kt t" by simp
    with ord [OF t] have o1: "wfq_in_order R ks w1" by simp
    have i1: "wfq_inv w1"
      using wfq_iteration_inv [OF Cons.prems(1), of R "(ke, kd, kt)"] w1(1) by simp
    from Cons.prems(3) Continue have r: "the_state (fcfs_loop R (map fst ks) f1) = Some f'"
      by (simp add: k)
    from Cons.IH [OF i1 w1(2) r _ o1] nd [OF Continue]
    show ?thesis by (simp add: k Continue w1(1))
  next
    case (Break f1)
    with so show ?thesis
      by (cases "wfq_iteration R (ke, kd, kt) w") (simp_all add: k)
  next
    case Undefined
    with so show ?thesis by simp
  qed
qed

lemma same_prime:
  assumes "same_run f w"
  shows "same_run (prime f) (prime w)"
proof -
  have "same_run
      (foldl (\<lambda>s' src. scheduleEvent (PACKET_ARRIVAL (startTime src) (id_src src)) s') f
         (map plain_source srcs))
      (foldl (\<lambda>s' src. scheduleEvent (PACKET_ARRIVAL (startTime src) (id_src src)) s') w srcs)"
    if "same_run f w" for srcs f w
    using that
  proof (induction srcs arbitrary: f w)
    case Nil
    then show ?case by simp
  next
    case (Cons a srcs)
    from same_scheduleEvent [OF Cons.prems, of "PACKET_ARRIVAL (startTime a) (id_src a)"]
    have "same_run (scheduleEvent (PACKET_ARRIVAL (startTime (plain_source a)) (id_src (plain_source a))) f)
        (scheduleEvent (PACKET_ARRIVAL (startTime a) (id_src a)) w)"
      by (simp add: plain_source_def Source_def)
    from Cons.IH [OF this] show ?case by simp
  qed
  from this [OF assms, of "sources w"] assms show ?thesis
    by (simp add: prime_def same_run_def)
qed

lemma drops_prime [simp]: "drops (prime s) = drops s"
  by (simp add: drops_def)

text \<open>
  Claim C7, amended: a WFQ simulator and an FCFS simulator loaded with the same
  configuration of one source and the same engine state, run with the same draws and the
  same tie-breaks of the event queue, go through the same passes and reach states that
  agree in time, counters, buffer and pending events, provided the FCFS run drops no packet
  and the WFQ buffer is in finish-time order at every call of \<^verbatim>\<open>startNextTransmission\<close>.
  The statement holds for every number of passes, hence for every departure of the run.
\<close>

theorem C7_single_source_in_order:
  "numSources w0 = 1 \<and> loaded w0 \<and> same_run f0 w0 \<and>
   the_state (fcfs_run R (map fst ks) f0) = Some f' \<and> drops f' = 0 \<and>
   wfq_in_order R ks (prime w0)
   \<longrightarrow> same_outcome (fcfs_run R (map fst ks) f0) (wfq_run R ks w0)"
proof
  assume a: "numSources w0 = 1 \<and> loaded w0 \<and> same_run f0 w0 \<and>
   the_state (fcfs_run R (map fst ks) f0) = Some f' \<and> drops f' = 0 \<and>
   wfq_in_order R ks (prime w0)"
  then have l: "loaded w0" by simp
  have inv: "wfq_inv (prime w0)"
    using loaded_prime(1,2) [OF l] by (auto simp: wfq_inv_def)
  have sr: "same_run (prime f0) (prime w0)" using a by (simp add: same_prime)
  from a have run: "the_state (fcfs_loop R (map fst ks) (prime f0)) = Some f'"
    by (simp add: fcfs_run_def)
  from drops_fcfs_loop [OF run] a have d: "drops f' = drops (prime f0)" by simp
  from a have o: "wfq_in_order R ks (prime w0)" by simp
  from same_loop [OF inv sr run d o] show
    "same_outcome (fcfs_run R (map fst ks) f0) (wfq_run R ks w0)"
    by (simp add: fcfs_run_def wfq_run_def)
qed

text \<open>
  Witness for C7: the configuration of the counterexample with a buffer of two packets.
  Nothing is dropped, the buffer is in order at every pass, and both runs transmit the
  three packets, 160 bytes.
\<close>

theorem C7_single_source_in_order_witness:
  "numSources (wfq_one_flow 2) = 1 \<and> loaded (wfq_one_flow 2) \<and>
   same_run (one_flow 2) (wfq_one_flow 2) \<and>
   drops (the (the_state (fcfs_run scripted (map fst (replicate 7 (0::nat, 0::nat, 0::nat))) (one_flow 2)))) = 0 \<and>
   wfq_in_order scripted (replicate 7 (0, 0, 0)) (prime (wfq_one_flow 2)) \<and>
   bytesOf (the (the_state (fcfs_run scripted (map fst (replicate 7 (0::nat, 0::nat, 0::nat))) (one_flow 2)))) = [160] \<and>
   same_outcome (fcfs_run scripted (map fst (replicate 7 (0::nat, 0::nat, 0::nat))) (one_flow 2))
     (wfq_run scripted (replicate 7 (0, 0, 0)) (wfq_one_flow 2))"
proof -
  let ?ks = "replicate 7 (0::nat, 0::nat, 0::nat)"
  let ?f = "the (the_state (fcfs_run scripted (map fst ?ks) (one_flow 2)))"
  have c: "numSources (wfq_one_flow 2) = 1" "loaded (wfq_one_flow 2)"
    "same_run (one_flow 2) (wfq_one_flow 2)"
    by (simp_all add: one_flow_def wfq_one_flow_def fcfs_configured_def wfq_configured_def
        FCFSSimulator_def WFQSimulator_def Source_def wfq_Source_def loaded_def same_run_def
        plain_source_def)
  have r: "the_state (fcfs_run scripted (map fst ?ks) (one_flow 2)) = Some ?f"
    by (simp add: one_flow_def run_defs numeral_eq_Suc)
  have d: "drops ?f = 0" "bytesOf ?f = [160]"
    by (simp_all add: one_flow_def run_defs numeral_eq_Suc drops_def bytesOf_def)
  have o: "wfq_in_order scripted ?ks (prime (wfq_one_flow 2))"
    by (simp add: wfq_one_flow_def wfq_run_defs numeral_eq_Suc wfq_before_start_def
        vft_ordered_def)
  note th = C7_single_source_in_order [of "wfq_one_flow 2" "one_flow 2" scripted ?ks ?f]
  from th c r d(1) o
  have "same_outcome (fcfs_run scripted (map fst ?ks) (one_flow 2))
     (wfq_run scripted ?ks (wfq_one_flow 2))" by blast
  with c d o show ?thesis by - (intro conjI; assumption)
qed

lemma single_ordered_same_buffer:
  assumes "single_ordered w" "packetBuffer w' = packetBuffer w" "sources w' = sources w"
  shows "single_ordered w'"
  using assms by (simp add: single_ordered_def vft_ordered_def)

lemma single_ordered_arrive:
  assumes "rng_ok R" "valid w" "single_ordered w" "i < length (sources w)"
    "wfq_generatePacket R i w = (p, w')" "wfq_admit kd p w' = Some t"
  shows "single_ordered t"
proof -
  note g = wfq_generatePacket_fields [OF assms(5)]
  from assms(3,4) have i: "i = 0" by (simp add: single_ordered_def)
  let ?src = "sources w ! 0"
  from assms(2,4) i have wt: "0 < weight ?src" by (simp add: valid_def)
  have sz: "0 < size_pkt p"
    using drawn_size_positive [OF assms(1,2,4), of "generator w"] g(2) by simp
  have "lastFinishTime ?src < virtualFinishTime p"
  proof -
    have "0 < real_of_int (size_pkt p) / weight ?src" using wt sz by simp
    then show ?thesis unfolding g(4) i by linarith
  qed
  with assms(3) have lt: "\<forall>q \<in> set (packetBuffer w). virtualFinishTime q < virtualFinishTime p"
    by (auto simp: single_ordered_def)
  have srt: "sorted_wrt (<) (map virtualFinishTime (packetBuffer w))"
    using assms(3) by (simp add: single_ordered_def vft_ordered_def)
  have last: "lastFinishTime (sources w' ! 0) = virtualFinishTime p" "length (sources w') = 1"
    using assms(3,4) i by (simp_all add: g(6) single_ordered_def)
  from assms(6) show ?thesis
  proof (cases rule: wfq_admit_cases)
    case room
    have "sorted_wrt (<) (map virtualFinishTime (packetBuffer w @ [p]))"
      using srt lt by (simp add: sorted_wrt_append)
    with lt last show ?thesis
      by (auto simp: single_ordered_def vft_ordered_def room(2) g(7) less_imp_le)
  next
    case (full xs d ys)
    from full(2) have b: "packetBuffer w = xs @ d # ys" by (simp add: g(7))
    have "sorted_wrt (<) (map virtualFinishTime (xs @ ys @ [p]))"
      using srt lt unfolding b by (auto simp: sorted_wrt_append)
    with lt last b show ?thesis
      by (auto simp: single_ordered_def vft_ordered_def full(4) updateStats_def less_imp_le)
  qed
qed

lemma single_ordered_start:
  assumes "single_ordered w"
  shows "single_ordered (wfq_startNextTransmission k w)"
proof (cases "linkBusy w \<or> packetBuffer w = []")
  case True
  with assms show ?thesis by (simp add: wfq_startNextTransmission_idle)
next
  case False
  then have idle: "\<not> linkBusy w" and ne: "packetBuffer w \<noteq> []" by simp_all
  from idle ne obtain xs p ys where buf: "packetBuffer w = xs @ p # ys"
    and st: "wfq_startNextTransmission k w =
       scheduleEvent (PACKET_DEPARTURE (currentTime w + real_of_int (size_pkt p) / linkCapacity w) p)
         (w\<lparr>linkBusy := True, packetBuffer := xs @ ys,
            systemVirtualTime := virtualFinishTime p - real_of_int (size_pkt p) / weight_pkt p\<rparr>)"
    by (rule wfq_startNextTransmission_cases [of w k]) blast
  have b': "packetBuffer (wfq_startNextTransmission k w) = xs @ ys"
    and s': "sources (wfq_startNextTransmission k w) = sources w"
    unfolding st by (simp_all add: scheduleEvent_def)
  from assms buf have "sorted_wrt (<) (map virtualFinishTime (xs @ ys))"
    by (simp add: single_ordered_def vft_ordered_def sorted_wrt_append)
  with assms buf show ?thesis
    by (simp add: single_ordered_def vft_ordered_def b' s')
qed

lemma single_ordered_before_start:
  assumes "rng_ok R" "wellformed w" "valid w" "single_ordered w"
    "wfq_before_start R k w = Some t"
  shows "single_ordered t"
proof -
  obtain ke kd kt where k: "k = (ke, kd, kt)" by (cases k)
  from assms(5) have ne: "eventQueue w \<noteq> []" by (auto simp: wfq_before_start_def k)
  obtain e q where pop: "pq_pop time_ev ke (eventQueue w) = (e, q)"
    by (cases "pq_pop time_ev ke (eventQueue w)")
  from pq_pop_split [OF ne pop] obtain xs ys where
    split: "eventQueue w = xs @ e # ys" "q = xs @ ys" by blast
  note wp = wellformed_popped [OF assms(2) split(1)]
  let ?w1 = "w\<lparr>eventQueue := q, currentTime := time_ev e\<rparr>"
  have o1: "single_ordered ?w1" using assms(4) by (rule single_ordered_same_buffer) simp_all
  show ?thesis
  proof (cases e)
    case (PACKET_ARRIVAL tm i)
    let ?w2 = "scheduleNextArrival R i ?w1"
    obtain p w3 where g: "wfq_generatePacket R i ?w2 = (p, w3)"
      by (cases "wfq_generatePacket R i ?w2")
    from assms(5) ne pop PACKET_ARRIVAL g have a: "wfq_admit kd p w3 = Some t"
      by (simp add: wfq_before_start_def k Let_def split: if_splits)
    have "single_ordered ?w2" using o1 by (rule single_ordered_same_buffer) simp_all
    moreover have "valid ?w2" using assms(3) by simp
    moreover have "i < length (sources ?w2)" using wp(1) PACKET_ARRIVAL by simp
    ultimately show ?thesis using assms(1) g a
      by (simp add: single_ordered_arrive [of R ?w2 i p w3 kd t])
  next
    case (PACKET_DEPARTURE tm p)
    with assms(5) ne pop have "t = recordDeparture p ?w1"
      by (simp add: wfq_before_start_def k Let_def split: if_splits)
    moreover have "packetBuffer (recordDeparture p ?w1) = packetBuffer ?w1"
      "sources (recordDeparture p ?w1) = sources ?w1"
      by (simp_all add: recordDeparture_def updateStats_def Let_def)
    ultimately show ?thesis using o1 single_ordered_same_buffer [of ?w1 t] by simp
  qed
qed

lemma single_source_in_order:
  assumes "rng_ok R"
  shows "wfq_sound w \<Longrightarrow> single_ordered w \<Longrightarrow> wfq_in_order R ks w"
proof (induction ks arbitrary: w)
  case Nil
  then show ?case by simp
next
  case (Cons k ks)
  from Cons.prems(1) have wf: "wellformed w" and v: "valid w"
    by (simp_all add: wfq_sound_def wfq_inv_def)
  show ?case
  proof (cases "wfq_before_start R k w")
    case None
    then show ?thesis by simp
  next
    case (Some t)
    have ot: "single_ordered t"
      using assms wf v Cons.prems(2) Some by (rule single_ordered_before_start)
    let ?w1 = "wfq_startNextTransmission (snd (snd k)) t"
    have "wfq_iteration R k w = Continue ?w1" using Some by (rule wfq_iteration_before_start(1))
    with wfq_iteration_sound [OF assms Cons.prems(1), of k] have "wfq_sound ?w1" by simp
    moreover have "single_ordered ?w1" using ot by (rule single_ordered_start)
    ultimately have "wfq_in_order R ks ?w1" by (rule Cons.IH)
    moreover from ot have "vft_ordered t" by (simp add: single_ordered_def)
    ultimately show ?thesis by (simp add: Some)
  qed
qed

lemma single_source_run_in_order:
  assumes "rng_ok R" "loaded w0" "valid w0" "length (sources w0) = 1"
  shows "wfq_in_order R ks (prime w0)"
proof -
  have "wfq_sound (prime w0)"
    using loaded_prime [OF assms(2)] assms(3) by (auto simp: wfq_sound_def wfq_inv_def)
  moreover have "sources (prime w0) = sources w0"
  proof -
    have "sources (foldl (\<lambda>s' src. scheduleEvent (PACKET_ARRIVAL (startTime src) (id_src src)) s') s srcs)
        = sources s" for srcs and s :: "'a WFQSimulator"
      by (induction srcs arbitrary: s) (simp_all add: scheduleEvent_def)
    then show ?thesis by (simp add: prime_def)
  qed
  then have "single_ordered (prime w0)"
    using assms(2,4) by (simp add: single_ordered_def vft_ordered_def loaded_def)
  ultimately show ?thesis using assms(1) by (intro single_source_in_order)
qed

end
